theory Spec2Isabelle
  imports Main "HOL-Library.Word" "HOL-Library.Multiset"
begin

section \<open>Cost model (Needleman-Wunsch-recmemo.h)\<close>

definition SUBSTITUTION_COST :: int where
  "SUBSTITUTION_COST = 1"

definition SUBSTITUTION_UNKNOWN_COST :: int where
  "SUBSTITUTION_UNKNOWN_COST = 1"

definition INSERTION_COST :: int where
  "INSERTION_COST = 2"

definition NOT_YET_COMPUTED :: int where
  "NOT_YET_COMPUTED = - 1"

section \<open>The base classifier\<close>

text \<open>
  The engines include \<^verbatim>\<open>characters_to_base.h\<close>, which is not part of the sources at
  hand. Its three predicates are therefore a parameter of every engine. In the C code
  \<^verbatim>\<open>isBase(c) * 2\<close> is used as a number, so \<open>isBase\<close> is read as returning 0 or 1.
\<close>

record classifier =
  isBase :: "char \<Rightarrow> bool"
  isUnknownBase :: "char \<Rightarrow> bool"
  isSameBase :: "char \<Rightarrow> char \<Rightarrow> bool"

text \<open>
  Modelled from the spec: the classifier of \<^verbatim>\<open>characters_to_base.h\<close> is missing. The spec
  names the canonical bases A, C, G, T and the unknown base N; every other character is
  a non-base character; the same-base test is an equality test on base symbols.
\<close>

definition std_classifier :: classifier where
  "std_classifier =
     \<lparr> isBase = (\<lambda>c. c \<in> set ''ACGTN''),
       isUnknownBase = (\<lambda>c. c = CHR ''N''),
       isSameBase = (\<lambda>a b. a = b) \<rparr>"

text \<open>Errors of the C code that the model makes explicit.\<close>

datatype error = Out_Of_Bounds | Bad_Array_Size

text \<open>The arithmetic value of a C truth value.\<close>

definition c_bool :: "bool \<Rightarrow> int" where
  "c_bool b = (if b then 1 else 0)"

text \<open>
  Sequences are modelled as \<open>string\<close>s; the length arguments of the entry points and the
  parameters \<open>M\<close> and \<open>N\<close> of \<^verbatim>\<open>cache_oblivious_helper\<close> are the lengths of the lists.
  Quantities of type \<^verbatim>\<open>long\<close>, \<^verbatim>\<open>int\<close> and \<^verbatim>\<open>size_t\<close> that hold distances and indices
  are modelled as unbounded integers: the distances are between 0 and \<open>2 * (M + N)\<close>
  (\<open>engine_value_range\<close> and \<open>rec_value_range\<close> below), so the model is that of the C code
  for sequences whose lengths add up to less than \<open>2^30\<close>. The cache budget \<open>Z\<close>, whose
  conversion through \<^verbatim>\<open>size_t\<close> matters, is a 32-bit word.
\<close>

section \<open>Sequence orderer (lines 110-123, repeated in every entry point)\<close>

definition order_sequences :: "string \<Rightarrow> string \<Rightarrow> string \<times> string" where
  "order_sequences A B = (if length A \<ge> length B then (A, B) else (B, A))"

section \<open>Memoized recursive engine\<close>

record NW_MemoContext =
  ctx_X :: string
  ctx_Y :: string
  ctx_M :: nat
  ctx_N :: nat

text \<open>
  The mutable part of the computation: the table \<^verbatim>\<open>c->memo\<close> and the characters handed
  to \<^verbatim>\<open>ManageBaseError\<close> so far, in call order.
\<close>

record NW_state =
  memo :: "int list list"
  reported :: "char list"

definition ManageBaseError :: "char \<Rightarrow> NW_state \<Rightarrow> NW_state" where
  "ManageBaseError ch s = s \<lparr> reported := reported s @ [ch] \<rparr>"

text \<open>Lines 96 and 98: \<^verbatim>\<open>c->memo[i][j] = res; return c->memo[i][j];\<close>\<close>

definition memo_store :: "nat \<Rightarrow> nat \<Rightarrow> int \<Rightarrow> NW_state \<Rightarrow> int \<times> NW_state" where
  "memo_store i j res s = (res, s \<lparr> memo := (memo s)[i := (memo s ! i)[j := res]] \<rparr>)"

text \<open>
  \<^verbatim>\<open>EditDistance_NW_RecMemo\<close>, lines 49-99. The table has \<open>M + 1\<close> rows of \<open>N + 1\<close>
  cells (lines 131-147), so the read \<^verbatim>\<open>c->memo[i][j]\<close> is in range exactly when
  \<open>i \<le> M\<close> and \<open>j \<le> N\<close>; outside, the model returns \<open>Out_Of_Bounds\<close>. The characters
  \<^verbatim>\<open>Xi\<close> and \<^verbatim>\<open>Yj\<close> are read before the tests on \<open>i\<close> and \<open>j\<close>: at \<open>i = M\<close> the
  read is the terminator of the C string, which \<open>c_string_at\<close> returns. Each is used
  only where its index is below the length.
\<close>

definition c_string_at :: "string \<Rightarrow> nat \<Rightarrow> char" where
  "c_string_at str k = (if k < length str then str ! k else CHR 0x00)"

function EditDistance_NW_RecMemo ::
  "classifier \<Rightarrow> NW_MemoContext \<Rightarrow> nat \<Rightarrow> nat \<Rightarrow> NW_state \<Rightarrow> error + (int \<times> NW_state)" where
  "EditDistance_NW_RecMemo cls c i j s =
    (if ctx_M c < i \<or> ctx_N c < j then Inl Out_Of_Bounds
     else if memo s ! i ! j \<noteq> NOT_YET_COMPUTED then Inr (memo s ! i ! j, s)
     else
       let Xi = c_string_at (ctx_X c) i; Yj = c_string_at (ctx_Y c) j in
       if i = ctx_M c then
         (if j = ctx_N c then Inr (memo_store i j 0 s)
          else
            (case EditDistance_NW_RecMemo cls c i (j + 1) s of
               Inl e \<Rightarrow> Inl e
             | Inr (r, s1) \<Rightarrow>
                 Inr (memo_store i j ((if isBase cls Yj then INSERTION_COST else 0) + r) s1)))
       else if j = ctx_N c then
         (case EditDistance_NW_RecMemo cls c (i + 1) j s of
            Inl e \<Rightarrow> Inl e
          | Inr (r, s1) \<Rightarrow>
              Inr (memo_store i j ((if isBase cls Xi then INSERTION_COST else 0) + r) s1))
       else if \<not> isBase cls Xi then
         (case EditDistance_NW_RecMemo cls c (i + 1) j (ManageBaseError Xi s) of
            Inl e \<Rightarrow> Inl e
          | Inr (r, s1) \<Rightarrow> Inr (memo_store i j r s1))
       else if \<not> isBase cls Yj then
         (case EditDistance_NW_RecMemo cls c i (j + 1) (ManageBaseError Yj s) of
            Inl e \<Rightarrow> Inl e
          | Inr (r, s1) \<Rightarrow> Inr (memo_store i j r s1))
       else
         (case EditDistance_NW_RecMemo cls c (i + 1) (j + 1) s of
            Inl e \<Rightarrow> Inl e
          | Inr (r1, s1) \<Rightarrow>
              let min1 = (if isUnknownBase cls Xi then SUBSTITUTION_UNKNOWN_COST
                          else (if isSameBase cls Xi Yj then 0 else SUBSTITUTION_COST)) + r1
              in
              (case EditDistance_NW_RecMemo cls c (i + 1) j s1 of
                 Inl e \<Rightarrow> Inl e
               | Inr (r2, s2) \<Rightarrow>
                   let cas2 = INSERTION_COST + r2;
                       min2 = (if cas2 < min1 then cas2 else min1)
                   in
                   (case EditDistance_NW_RecMemo cls c i (j + 1) s2 of
                      Inl e \<Rightarrow> Inl e
                    | Inr (r3, s3) \<Rightarrow>
                        let cas3 = INSERTION_COST + r3;
                            min3 = (if cas3 < min2 then cas3 else min2)
                        in Inr (memo_store i j min3 s3)))))"
  by pat_completeness auto
termination
  by (relation "measure (\<lambda>(cls, c, i, j, s). (ctx_M c - i) + (ctx_N c - j))") auto

declare EditDistance_NW_RecMemo.simps [simp del]

text \<open>
  \<^verbatim>\<open>EditDistance_NW_Rec\<close>, lines 106-159: orders the sequences, allocates the table with
  every cell \<open>NOT_YET_COMPUTED\<close>, and calls the recursive function at \<open>(0, 0)\<close>. The
  result is the returned distance together with the characters reported to
  \<^verbatim>\<open>ManageBaseError\<close>.
\<close>

definition EditDistance_NW_Rec_run :: "classifier \<Rightarrow> string \<Rightarrow> string \<Rightarrow> error + (int \<times> char list)" where
  "EditDistance_NW_Rec_run cls A B =
     (let (X, Y) = order_sequences A B;
          c = \<lparr> ctx_X = X, ctx_Y = Y, ctx_M = length X, ctx_N = length Y \<rparr>;
          s0 = \<lparr> memo = replicate (length X + 1) (replicate (length Y + 1) NOT_YET_COMPUTED),
                 reported = [] \<rparr>
      in case EditDistance_NW_RecMemo cls c 0 0 s0 of
           Inl e \<Rightarrow> Inl e
         | Inr (res, s) \<Rightarrow> Inr (res, reported s))"

definition EditDistance_NW_Rec :: "classifier \<Rightarrow> string \<Rightarrow> string \<Rightarrow> error + int" where
  "EditDistance_NW_Rec cls A B = map_sum id fst (EditDistance_NW_Rec_run cls A B)"

section \<open>The row update shared by the three iterative engines\<close>

text \<open>
  The body of the innermost loop (lines 202-221, 285-302 and 387-404, the same text up
  to the index expression of the character of \<open>Y\<close>): \<open>x\<close> is \<^verbatim>\<open>X[M - i]\<close>, \<open>y\<close> the
  character of \<open>Y\<close> of column \<open>j\<close>. The state is the array \<^verbatim>\<open>tab\<close> and the scalar
  \<^verbatim>\<open>prev_value\<close>.
\<close>

definition cell_update :: "classifier \<Rightarrow> char \<Rightarrow> char \<Rightarrow> nat \<Rightarrow> int list \<times> int \<Rightarrow> int list \<times> int" where
  "cell_update cls x y j = (\<lambda>(tab, prev_value).
     if \<not> isBase cls y then (tab[j := tab ! (j - 1)], tab ! j)
     else if \<not> isBase cls x then (tab, tab ! j)
     else
       let min0 = (if tab ! j < tab ! (j - 1) then tab ! j else tab ! (j - 1)) + INSERTION_COST;
           delta = c_bool (\<not> isSameBase cls x y) + prev_value
       in (tab[j := (if min0 < delta then min0 else delta)], tab ! j))"

text \<open>
  The loop \<^verbatim>\<open>for (j = 1; j < w + 1; j++)\<close> over the cells of one row; \<open>yc j\<close> is the
  character of \<open>Y\<close> that the engine reads for column \<open>j\<close>.
\<close>

definition row_loop :: "classifier \<Rightarrow> char \<Rightarrow> (nat \<Rightarrow> char) \<Rightarrow> nat \<Rightarrow> int list \<times> int \<Rightarrow> int list \<times> int" where
  "row_loop cls x yc w = fold (\<lambda>j. cell_update cls x (yc j) j) [1..<Suc w]"

text \<open>
  The initialisation loop \<^verbatim>\<open>tab[j] = tab[j - 1] + (isBase(...) * 2)\<close> (lines 190-193,
  271-274, 376-379, and for \<^verbatim>\<open>col\<close> lines 261-264 and 339-342).
\<close>

definition init_loop :: "classifier \<Rightarrow> (nat \<Rightarrow> char) \<Rightarrow> nat \<Rightarrow> int list \<Rightarrow> int list" where
  "init_loop cls yc w = fold (\<lambda>j tab. tab[j := tab ! (j - 1) + c_bool (isBase cls (yc j)) * 2]) [1..<Suc w]"

text \<open>
  A variable-length array as declared, before any write. Its cells are indeterminate in
  C; each engine writes a cell before reading it, except for the read of line 380.
\<close>

definition new_array :: "nat \<Rightarrow> int list" where
  "new_array n = replicate n 0"

section \<open>Iterative row engine (lines 164-225)\<close>

text \<open>Lines 197-222: the body of the loop over \<open>i\<close>.\<close>

definition iteratif_row :: "classifier \<Rightarrow> string \<Rightarrow> string \<Rightarrow> nat \<Rightarrow> int list \<Rightarrow> int list" where
  "iteratif_row cls X Y i tab =
     (let prev_value = tab ! 0;
          tab1 = tab[0 := tab ! 0 + 2 * c_bool (isBase cls (X ! (length X - i)))]
      in fst (row_loop cls (X ! (length X - i)) (\<lambda>j. Y ! (length Y - j)) (length Y)
                (tab1, prev_value)))"

definition iteratif_rows :: "classifier \<Rightarrow> string \<Rightarrow> string \<Rightarrow> int list \<Rightarrow> int list" where
  "iteratif_rows cls X Y = fold (iteratif_row cls X Y) [1..<Suc (length X)]"

definition EditDistance_NW_iteratif :: "classifier \<Rightarrow> string \<Rightarrow> string \<Rightarrow> int" where
  "EditDistance_NW_iteratif cls A B =
     (let (X, Y) = order_sequences A B;
          tab0 = init_loop cls (\<lambda>j. Y ! (length Y - j)) (length Y) ((new_array (length Y + 1))[0 := 0])
      in iteratif_rows cls X Y tab0 ! length Y)"

section \<open>Cache-aware tiled engine (lines 231-311)\<close>

text \<open>
  Line 250, \<^verbatim>\<open>int nb_case = (int)Z / (5 * sizeof(long))\<close>: the division is done in
  \<^verbatim>\<open>size_t\<close> (64 bits, \<open>sizeof(long) = 8\<close>), to which \<open>Z\<close> is converted with its sign, and
  the quotient is cut to 32 bits.
\<close>

definition nb_case_of :: "32 word \<Rightarrow> int" where
  "nb_case_of Z = sint (ucast ((scast Z :: 64 word) div 40) :: 32 word)"

text \<open>
  Lines 279-306 (and 381-408): one pass over the rows for a block of \<open>w\<close> columns. Row
  \<open>i\<close> starts from the boundary value \<^verbatim>\<open>col[i]\<close> and leaves its last cell there.
\<close>

definition block_row :: "classifier \<Rightarrow> string \<Rightarrow> (nat \<Rightarrow> char) \<Rightarrow> nat \<Rightarrow> nat \<Rightarrow> int list \<times> int list \<Rightarrow> int list \<times> int list" where
  "block_row cls X yc w i = (\<lambda>(tab, col).
     let prev_value = tab ! 0;
         tab1 = tab[0 := col ! i];
         tab2 = fst (row_loop cls (X ! (length X - i)) yc w (tab1, prev_value))
     in (tab2, col[i := tab2 ! w]))"

definition block_rows :: "classifier \<Rightarrow> string \<Rightarrow> (nat \<Rightarrow> char) \<Rightarrow> nat \<Rightarrow> int list \<times> int list \<Rightarrow> int list \<times> int list" where
  "block_rows cls X yc w = fold (block_row cls X yc w) [1..<Suc (length X)]"

text \<open>Lines 268-307: the body of the \<^verbatim>\<open>while\<close> loop, for the current value of \<open>N\<close>.\<close>

definition cache_aware_block :: "classifier \<Rightarrow> string \<Rightarrow> string \<Rightarrow> int \<Rightarrow> int \<Rightarrow> int list \<times> int list \<Rightarrow> int list \<times> int list" where
  "cache_aware_block cls X Y nb_case N = (\<lambda>(tab, col).
     let bordure = (if N < nb_case then N else nb_case);
         yc = (\<lambda>j. Y ! nat (N - int j));
         tab1 = init_loop cls yc (nat bordure) (tab[0 := col ! 0]);
         col1 = col[0 := tab1 ! nat bordure]
     in block_rows cls X yc (nat bordure) (tab1, col1))"

text \<open>
  Lines 266-308: \<^verbatim>\<open>while (N > 0) { ...; N = N - nb_case; }\<close>. Nothing bounds the number
  of rounds, so the loop is a partial function: \<open>None\<close> is a loop that never ends.
\<close>

partial_function (option) cache_aware_loop ::
  "classifier \<Rightarrow> string \<Rightarrow> string \<Rightarrow> int \<Rightarrow> int \<Rightarrow> int list \<times> int list \<Rightarrow> (int list \<times> int list) option" where
  "cache_aware_loop cls X Y nb_case N st =
     (if N > 0 then cache_aware_loop cls X Y nb_case (N - nb_case) (cache_aware_block cls X Y nb_case N st)
      else Some st)"

declare cache_aware_loop.simps [code]

text \<open>
  The entry point. The array \<^verbatim>\<open>tab\<close> has \<open>nb_case + 1\<close> cells; a size that is not
  positive is undefined behaviour, reported as \<open>Bad_Array_Size\<close>.
\<close>

definition EditDistance_NW_cache_aware :: "classifier \<Rightarrow> string \<Rightarrow> string \<Rightarrow> 32 word \<Rightarrow> (error + int) option" where
  "EditDistance_NW_cache_aware cls A B Z =
     (let (X, Y) = order_sequences A B;
          nb_case = nb_case_of Z
      in if nb_case + 1 \<le> 0 then Some (Inl Bad_Array_Size)
         else
           let tab = (new_array (nat (nb_case + 1)))[0 := 0];
               col = init_loop cls (\<lambda>i. X ! (length X - i)) (length X) ((new_array (length X + 1))[0 := 0])
           in map_option (\<lambda>(tab', col'). Inr (col' ! length X))
                (cache_aware_loop cls X Y nb_case (int (length Y)) (tab, col)))"

section \<open>Cache-oblivious recursive engine (lines 316-410)\<close>

text \<open>
  Lines 370-408, the branch of \<^verbatim>\<open>cache_oblivious_helper\<close> that evaluates a range:
  \<^verbatim>\<open>tab\<close> has \<open>taille + 1\<close> cells, and line 380 reads \<^verbatim>\<open>tab[fin_seq]\<close>.
\<close>

definition cache_oblivious_leaf :: "classifier \<Rightarrow> string \<Rightarrow> string \<Rightarrow> int list \<Rightarrow> int \<Rightarrow> int \<Rightarrow> error + int list" where
  "cache_oblivious_leaf cls X Y col debut_seq fin_seq =
     (let taille = fin_seq - debut_seq in
      if taille + 1 \<le> 0 then Inl Bad_Array_Size
      else
        let yc = (\<lambda>j. Y ! nat (int (length Y) - int j - debut_seq));
            tab = init_loop cls yc (nat taille) ((new_array (nat (taille + 1)))[0 := col ! 0])
        in if fin_seq < 0 \<or> taille + 1 \<le> fin_seq then Inl Out_Of_Bounds
           else
             let col1 = col[0 := tab ! nat fin_seq]
             in Inr (snd (block_rows cls X yc (nat taille) (tab, col1))))"

text \<open>The C division of a \<^verbatim>\<open>long\<close> by 2, which rounds towards zero.\<close>

definition c_half :: "int \<Rightarrow> int" where
  "c_half n = (if 0 \<le> n then n div 2 else - ((- n) div 2))"

text \<open>
  \<^verbatim>\<open>cache_oblivious_helper\<close>, lines 351-410. The array \<^verbatim>\<open>col\<close> is shared by all calls:
  the model passes it in and returns it updated. Nothing in the code bounds the depth of
  the recursion, so the function is partial: \<open>None\<close> is a recursion that never ends.
\<close>

partial_function (option) cache_oblivious_helper ::
  "classifier \<Rightarrow> string \<Rightarrow> string \<Rightarrow> int list \<Rightarrow> int \<Rightarrow> int \<Rightarrow> int \<Rightarrow> (error + int list) option" where
  "cache_oblivious_helper cls X Y col seuil debut_seq fin_seq =
     (let taille = fin_seq - debut_seq in
      if taille > seuil then
        let milieu = c_half taille + debut_seq in
        Option.bind (cache_oblivious_helper cls X Y col seuil debut_seq milieu)
          (\<lambda>r. case r of
                  Inl e \<Rightarrow> Some (Inl e)
                | Inr col1 \<Rightarrow> cache_oblivious_helper cls X Y col1 seuil milieu fin_seq)
      else Some (cache_oblivious_leaf cls X Y col debut_seq fin_seq))"

declare cache_oblivious_helper.simps [code]

definition EditDistance_NW_cache_oblivious :: "classifier \<Rightarrow> string \<Rightarrow> string \<Rightarrow> int \<Rightarrow> (error + int) option" where
  "EditDistance_NW_cache_oblivious cls A B seuil =
     (let (X, Y) = order_sequences A B;
          col = init_loop cls (\<lambda>i. X ! (length X - i)) (length X) ((new_array (length X + 1))[0 := 0])
      in map_option (map_sum id (\<lambda>col'. col' ! length X))
           (cache_oblivious_helper cls X Y col seuil 0 (int (length Y))))"

section \<open>The recurrence of the specification\<close>

text \<open>
  The recurrence \<open>phi(i, j)\<close> of section 4.1 of the specification, the cost of aligning
  \<open>X[i..M)\<close> with \<open>Y[j..N)\<close>, with the substitution cost \<open>sc\<close> as a parameter.
\<close>

function phi :: "classifier \<Rightarrow> (char \<Rightarrow> char \<Rightarrow> int) \<Rightarrow> string \<Rightarrow> string \<Rightarrow> nat \<Rightarrow> nat \<Rightarrow> int" where
  "phi cls sc X Y i j =
     (if length X \<le> i then
        (if length Y \<le> j then 0
         else (if isBase cls (Y ! j) then INSERTION_COST else 0) + phi cls sc X Y i (j + 1))
      else if length Y \<le> j then
        (if isBase cls (X ! i) then INSERTION_COST else 0) + phi cls sc X Y (i + 1) j
      else if \<not> isBase cls (X ! i) then phi cls sc X Y (i + 1) j
      else if \<not> isBase cls (Y ! j) then phi cls sc X Y i (j + 1)
      else min (sc (X ! i) (Y ! j) + phi cls sc X Y (i + 1) (j + 1))
             (min (INSERTION_COST + phi cls sc X Y (i + 1) j)
                  (INSERTION_COST + phi cls sc X Y i (j + 1))))"
  by pat_completeness auto
termination
  by (relation "measure (\<lambda>(cls, sc, X, Y, i, j). (length X - i) + (length Y - j))") auto

declare phi.simps [simp del]

text \<open>
  The substitution cost in the words of the specification: 0 if the two are the same
  known base, the unknown-substitution cost if either is the unknown-base symbol, else
  the standard substitution cost.
\<close>

definition subCost_spec :: "classifier \<Rightarrow> char \<Rightarrow> char \<Rightarrow> int" where
  "subCost_spec cls a b =
     (if \<not> isUnknownBase cls a \<and> \<not> isUnknownBase cls b \<and> isSameBase cls a b then 0
      else if isUnknownBase cls a \<or> isUnknownBase cls b then SUBSTITUTION_UNKNOWN_COST
      else SUBSTITUTION_COST)"

definition phi_spec :: "classifier \<Rightarrow> string \<Rightarrow> string \<Rightarrow> nat \<Rightarrow> nat \<Rightarrow> int" where
  "phi_spec cls X Y i j = phi cls (subCost_spec cls) X Y i j"

text \<open>The substitution cost as lines 81-82 compute it, and as lines 216, 298 and 400 do.\<close>

definition subCost_rec :: "classifier \<Rightarrow> char \<Rightarrow> char \<Rightarrow> int" where
  "subCost_rec cls a b =
     (if isUnknownBase cls a then SUBSTITUTION_UNKNOWN_COST
      else (if isSameBase cls a b then 0 else SUBSTITUTION_COST))"

definition subCost_iter :: "classifier \<Rightarrow> char \<Rightarrow> char \<Rightarrow> int" where
  "subCost_iter cls a b = c_bool (\<not> isSameBase cls a b)"

text \<open>
  The alignment distance of two sequences of bases, by recursion on the sequences: the
  common meaning of the engines once the non-base characters are removed.
\<close>

fun align :: "(char \<Rightarrow> char \<Rightarrow> int) \<Rightarrow> string \<Rightarrow> string \<Rightarrow> int" where
  "align sc [] [] = 0"
| "align sc [] (y # ys) = INSERTION_COST + align sc [] ys"
| "align sc (x # xs) [] = INSERTION_COST + align sc xs []"
| "align sc (x # xs) (y # ys) =
     min (sc x y + align sc xs ys)
       (min (INSERTION_COST + align sc xs (y # ys)) (INSERTION_COST + align sc (x # xs) ys))"

definition bases :: "classifier \<Rightarrow> string \<Rightarrow> string" where
  "bases cls str = filter (isBase cls) str"

text \<open>
  The table of the iterative engines: the cost of aligning the last \<open>i\<close> characters of
  \<open>X\<close> with the last \<open>j\<close> characters of \<open>Y\<close>.
\<close>

definition tail_cost :: "classifier \<Rightarrow> string \<Rightarrow> string \<Rightarrow> nat \<Rightarrow> nat \<Rightarrow> int" where
  "tail_cost cls X Y i j =
     align (subCost_iter cls) (bases cls (drop (length X - i) X)) (bases cls (drop (length Y - j) Y))"

text \<open>
  The value that the body of the innermost loop writes to \<^verbatim>\<open>tab[j]\<close>, from the left
  neighbour \<^verbatim>\<open>tab[j - 1]\<close>, the cell \<^verbatim>\<open>tab[j]\<close> of the previous row and
  \<^verbatim>\<open>prev_value\<close>.
\<close>

definition cell_value :: "classifier \<Rightarrow> char \<Rightarrow> char \<Rightarrow> int \<Rightarrow> int \<Rightarrow> int \<Rightarrow> int" where
  "cell_value cls x y left up diag =
     (if \<not> isBase cls y then left
      else if \<not> isBase cls x then up
      else
        let min0 = (if up < left then up else left) + INSERTION_COST;
            delta = c_bool (\<not> isSameBase cls x y) + diag
        in if min0 < delta then min0 else delta)"

text \<open>
  The invariant of the memoization table: it has \<open>M + 1\<close> rows of \<open>N + 1\<close> cells, and
  a cell holds the sentinel or the value of the recurrence with the substitution cost of
  lines 81-82.
\<close>

definition memo_ok :: "classifier \<Rightarrow> NW_MemoContext \<Rightarrow> NW_state \<Rightarrow> bool" where
  "memo_ok cls c s \<longleftrightarrow>
     length (memo s) = Suc (ctx_M c) \<and>
     (\<forall>i\<le>ctx_M c. length (memo s ! i) = Suc (ctx_N c)) \<and>
     (\<forall>i\<le>ctx_M c. \<forall>j\<le>ctx_N c.
        memo s ! i ! j = NOT_YET_COMPUTED \<or>
        memo s ! i ! j = phi cls (subCost_rec cls) (ctx_X c) (ctx_Y c) i j)"

text \<open>
  What a call may add to the characters reported: non-base characters of the two
  sequences, after those reported before.
\<close>

definition reports_extend :: "classifier \<Rightarrow> NW_MemoContext \<Rightarrow> NW_state \<Rightarrow> NW_state \<Rightarrow> bool" where
  "reports_extend cls c s s' \<longleftrightarrow>
     (\<exists>new. reported s' = reported s @ new \<and>
        (\<forall>ch\<in>set new. \<not> isBase cls ch \<and> (ch \<in> set (ctx_X c) \<or> ch \<in> set (ctx_Y c))))"

text \<open>The common value of the three iterative engines, where they return one.\<close>

definition engine_value :: "classifier \<Rightarrow> string \<Rightarrow> string \<Rightarrow> int" where
  "engine_value cls A B =
     (let (X, Y) = order_sequences A B in align (subCost_iter cls) (bases cls X) (bases cls Y))"

text \<open>The value of the memoized engine.\<close>

definition rec_value :: "classifier \<Rightarrow> string \<Rightarrow> string \<Rightarrow> int" where
  "rec_value cls A B =
     (let (X, Y) = order_sequences A B in align (subCost_rec cls) (bases cls X) (bases cls Y))"

section \<open>The engines with their reports\<close>

text \<open>
  \<^verbatim>\<open>ManageBaseError\<close> is called at lines 70 and 75 only, inside
  \<^verbatim>\<open>EditDistance_NW_RecMemo\<close>. The bodies of \<^verbatim>\<open>EditDistance_NW_iteratif\<close>,
  \<^verbatim>\<open>EditDistance_NW_cache_aware\<close>, \<^verbatim>\<open>EditDistance_NW_cache_oblivious\<close> and
  \<^verbatim>\<open>cache_oblivious_helper\<close> contain no call of it: each returns its result with an
  empty list of reported characters.
\<close>

definition EditDistance_NW_iteratif_run :: "classifier \<Rightarrow> string \<Rightarrow> string \<Rightarrow> int \<times> char list" where
  "EditDistance_NW_iteratif_run cls A B = (EditDistance_NW_iteratif cls A B, [])"

definition EditDistance_NW_cache_aware_run ::
  "classifier \<Rightarrow> string \<Rightarrow> string \<Rightarrow> 32 word \<Rightarrow> (error + int \<times> char list) option" where
  "EditDistance_NW_cache_aware_run cls A B Z =
     map_option (map_sum id (\<lambda>v. (v, []))) (EditDistance_NW_cache_aware cls A B Z)"

definition EditDistance_NW_cache_oblivious_run ::
  "classifier \<Rightarrow> string \<Rightarrow> string \<Rightarrow> int \<Rightarrow> (error + int \<times> char list) option" where
  "EditDistance_NW_cache_oblivious_run cls A B seuil =
     map_option (map_sum id (\<lambda>v. (v, []))) (EditDistance_NW_cache_oblivious cls A B seuil)"

section \<open>The cells that an evaluation of the memoized engine reaches\<close>

text \<open>
  The cells on which \<^verbatim>\<open>EditDistance_NW_RecMemo\<close> calls itself when it evaluates the cell
  \<open>(i, j)\<close> (lines 62, 66, 71, 76, 83, 85 and 90), in the order of the calls.
\<close>

definition successors :: "classifier \<Rightarrow> string \<Rightarrow> string \<Rightarrow> nat \<times> nat \<Rightarrow> (nat \<times> nat) list" where
  "successors cls X Y = (\<lambda>(i, j).
     if i = length X then (if j = length Y then [] else [(i, j + 1)])
     else if j = length Y then [(i + 1, j)]
     else if \<not> isBase cls (X ! i) then [(i + 1, j)]
     else if \<not> isBase cls (Y ! j) then [(i, j + 1)]
     else [(i + 1, j + 1), (i + 1, j), (i, j + 1)])"

text \<open>
  The cells that the call at \<open>(0, 0)\<close> of \<^verbatim>\<open>EditDistance_NW_Rec\<close> (line 151) reaches:
  the characters met during the evaluation are those of these cells.
\<close>

inductive reached :: "classifier \<Rightarrow> string \<Rightarrow> string \<Rightarrow> nat \<times> nat \<Rightarrow> bool"
  for cls :: classifier and X :: string and Y :: string where
  reached_start: "reached cls X Y (0, 0)"
| reached_step: "reached cls X Y c \<Longrightarrow> c' \<in> set (successors cls X Y c) \<Longrightarrow> reached cls X Y c'"

code_pred reached .

text \<open>
  The interior cells at which lines 68-77 skip a character, and the character that they
  hand to \<^verbatim>\<open>ManageBaseError\<close>: \<^verbatim>\<open>Xi\<close> if it is not a base, else \<^verbatim>\<open>Yj\<close>.
\<close>

definition skipped :: "classifier \<Rightarrow> string \<Rightarrow> string \<Rightarrow> nat \<times> nat \<Rightarrow> bool" where
  "skipped cls X Y = (\<lambda>(i, j).
     i < length X \<and> j < length Y \<and> \<not> (isBase cls (X ! i) \<and> isBase cls (Y ! j)))"

definition skipped_char :: "classifier \<Rightarrow> string \<Rightarrow> string \<Rightarrow> nat \<times> nat \<Rightarrow> char" where
  "skipped_char cls X Y = (\<lambda>(i, j). if isBase cls (X ! i) then Y ! j else X ! i)"

text \<open>
  The invariants that relate the table to the reached cells: a cell that holds a value has
  been reached and its successors hold a value; and the skipped cells that hold a value.
\<close>

definition computed :: "NW_state \<Rightarrow> nat \<times> nat \<Rightarrow> bool" where
  "computed s = (\<lambda>(i, j). memo s ! i ! j \<noteq> NOT_YET_COMPUTED)"

definition trace_ok :: "classifier \<Rightarrow> NW_MemoContext \<Rightarrow> NW_state \<Rightarrow> bool" where
  "trace_ok cls c s \<longleftrightarrow>
     (\<forall>i\<le>ctx_M c. \<forall>j\<le>ctx_N c. computed s (i, j) \<longrightarrow>
        reached cls (ctx_X c) (ctx_Y c) (i, j) \<and>
        (\<forall>c'\<in>set (successors cls (ctx_X c) (ctx_Y c) (i, j)). computed s c'))"

definition skipped_done :: "classifier \<Rightarrow> NW_MemoContext \<Rightarrow> NW_state \<Rightarrow> (nat \<times> nat) set" where
  "skipped_done cls c s = {d. skipped cls (ctx_X c) (ctx_Y c) d \<and> computed s d}"

text \<open>
  What a call at the cell \<open>(i, j)\<close> keeps: the cells that hold a value, and the content
  of every cell of a row before \<open>i\<close> or of a column before \<open>j\<close>.
\<close>

definition keeps :: "NW_MemoContext \<Rightarrow> nat \<Rightarrow> nat \<Rightarrow> NW_state \<Rightarrow> NW_state \<Rightarrow> bool" where
  "keeps c i j s s' \<longleftrightarrow>
     (\<forall>a\<le>ctx_M c. \<forall>b\<le>ctx_N c. computed s (a, b) \<longrightarrow> computed s' (a, b)) \<and>
     (\<forall>a\<le>ctx_M c. \<forall>b\<le>ctx_N c. a < i \<or> b < j \<longrightarrow> memo s' ! a ! b = memo s ! a ! b)"

text \<open>
  The reports of a state against the skipped cells that hold a value: a call leaves the
  two in balance.
\<close>

definition balanced :: "classifier \<Rightarrow> NW_MemoContext \<Rightarrow> NW_state \<Rightarrow> NW_state \<Rightarrow> bool" where
  "balanced cls c s s' \<longleftrightarrow>
     mset (reported s') + image_mset (skipped_char cls (ctx_X c) (ctx_Y c)) (mset_set (skipped_done cls c s))
       = mset (reported s) + image_mset (skipped_char cls (ctx_X c) (ctx_Y c)) (mset_set (skipped_done cls c s'))"

section \<open>Properties of the alignment distance and of the recurrence\<close>

lemma align_sym:
  assumes "\<And>x y. x \<in> set xs \<Longrightarrow> y \<in> set ys \<Longrightarrow> sc x y = sc' y x"
  shows "align sc xs ys = align sc' ys xs"
  using assms
proof (induction sc xs ys rule: align.induct)
  case (4 sc x xs y ys)
  have a: "align sc xs ys = align sc' ys xs" using 4 by simp
  have b: "align sc xs (y # ys) = align sc' (y # ys) xs" using 4 by simp
  have c: "align sc (x # xs) ys = align sc' ys (x # xs)" using 4 by simp
  have d: "sc x y = sc' y x" using 4 by simp
  show ?case by (simp add: a b c d min.commute min.left_commute)
qed simp_all

lemma align_cong:
  assumes "\<And>x y. x \<in> set xs \<Longrightarrow> y \<in> set ys \<Longrightarrow> sc x y = sc' x y"
  shows "align sc xs ys = align sc' xs ys"
  using assms
proof (induction sc xs ys rule: align.induct)
  case (4 sc x xs y ys)
  have a: "align sc xs ys = align sc' xs ys" using 4 by simp
  have b: "align sc xs (y # ys) = align sc' xs (y # ys)" using 4 by simp
  have c: "align sc (x # xs) ys = align sc' (x # xs) ys" using 4 by simp
  have d: "sc x y = sc' x y" using 4 by simp
  show ?case by (simp add: a b c d)
qed simp_all

lemma align_nonneg:
  assumes "\<And>x y. x \<in> set xs \<Longrightarrow> y \<in> set ys \<Longrightarrow> 0 \<le> sc x y"
  shows "0 \<le> align sc xs ys"
  using assms
proof (induction sc xs ys rule: align.induct)
  case (4 sc x xs y ys)
  have a: "0 \<le> align sc xs ys" using 4 by simp
  have b: "0 \<le> align sc xs (y # ys)" using 4 by simp
  have c: "0 \<le> align sc (x # xs) ys" using 4 by simp
  have d: "0 \<le> sc x y" using 4 by simp
  show ?case using a b c d by (simp add: INSERTION_COST_def)
qed (simp_all add: INSERTION_COST_def)

lemma align_self:
  assumes "\<And>x. x \<in> set xs \<Longrightarrow> sc x x = 0"
    and "\<And>x y. x \<in> set xs \<Longrightarrow> y \<in> set xs \<Longrightarrow> 0 \<le> sc x y"
  shows "align sc xs xs = 0"
  using assms
proof (induction xs)
  case (Cons x xs)
  have a: "align sc xs xs = 0" using Cons by simp
  have b: "0 \<le> align sc xs (x # xs)" using Cons.prems by (intro align_nonneg) auto
  have c: "0 \<le> align sc (x # xs) xs" using Cons.prems by (intro align_nonneg) auto
  have d: "sc x x = 0" using Cons by simp
  show ?case using a b c d by (simp add: INSERTION_COST_def)
qed simp

lemma phi_align:
  "phi cls sc X Y i j = align sc (bases cls (drop i X)) (bases cls (drop j Y))"
proof (induction cls sc X Y i j rule: phi.induct)
  case (1 cls sc X Y i j)
  show ?case
  proof (cases "length X \<le> i")
    case iM: True
    show ?thesis
    proof (cases "length Y \<le> j")
      case True
      with iM show ?thesis by (subst phi.simps) (simp add: bases_def)
    next
      case False
      then have dj: "drop j Y = Y ! j # drop (Suc j) Y" by (simp add: Cons_nth_drop_Suc)
      have ih: "phi cls sc X Y i (j + 1) = align sc (bases cls (drop i X)) (bases cls (drop (j + 1) Y))"
        using 1(1) iM False by simp
      show ?thesis using iM False ih
        by (subst phi.simps) (simp add: bases_def dj)
    qed
  next
    case iM: False
    then have di: "drop i X = X ! i # drop (Suc i) X" by (simp add: Cons_nth_drop_Suc)
    show ?thesis
    proof (cases "length Y \<le> j")
      case True
      have ih: "phi cls sc X Y (i + 1) j = align sc (bases cls (drop (i + 1) X)) (bases cls (drop j Y))"
        using 1(2) iM True by simp
      show ?thesis using iM True ih
        by (subst phi.simps) (simp add: bases_def di)
    next
      case jN: False
      then have dj: "drop j Y = Y ! j # drop (Suc j) Y" by (simp add: Cons_nth_drop_Suc)
      show ?thesis
      proof (cases "isBase cls (X ! i)")
        case False
        have ih: "phi cls sc X Y (i + 1) j = align sc (bases cls (drop (i + 1) X)) (bases cls (drop j Y))"
          using 1(3) iM jN False by simp
        show ?thesis using iM jN False ih
          by (subst phi.simps) (simp add: bases_def di)
      next
        case bx: True
        show ?thesis
        proof (cases "isBase cls (Y ! j)")
          case False
          have ih: "phi cls sc X Y i (j + 1) = align sc (bases cls (drop i X)) (bases cls (drop (j + 1) Y))"
            using 1(4) iM jN bx False by simp
          show ?thesis using iM jN bx False ih
            by (subst phi.simps) (simp add: bases_def dj)
        next
          case yb: True
          have ih1: "phi cls sc X Y (i + 1) (j + 1) = align sc (bases cls (drop (i + 1) X)) (bases cls (drop (j + 1) Y))"
            using 1(5) iM jN bx yb by simp
          have ih2: "phi cls sc X Y (i + 1) j = align sc (bases cls (drop (i + 1) X)) (bases cls (drop j Y))"
            using 1(6) iM jN bx yb by simp
          have ih3: "phi cls sc X Y i (j + 1) = align sc (bases cls (drop i X)) (bases cls (drop (j + 1) Y))"
            using 1(7) iM jN bx yb by simp
          have l: "bases cls (drop i X) = X ! i # bases cls (drop (Suc i) X)"
            using bx by (simp add: bases_def di)
          have r: "bases cls (drop j Y) = Y ! j # bases cls (drop (Suc j) Y)"
            using yb by (simp add: bases_def dj)
          show ?thesis using iM jN bx yb
            apply (subst phi.simps)
            apply (simp only: ih1 ih2 ih3 if_False if_True not_True_eq_False not_False_eq_True)
            apply (simp add: l r)
            done
        qed
      qed
    qed
  qed
qed

section \<open>The table computed by the iterative engines\<close>

lemma tail_cost_0_0: "tail_cost cls X Y 0 0 = 0"
  by (simp add: tail_cost_def bases_def)

lemma drop_tail_step:
  assumes "1 \<le> i" "i \<le> length X"
  shows "drop (length X - i) X = X ! (length X - i) # drop (length X - (i - 1)) X"
proof -
  have "length X - i < length X" using assms by simp
  then have "drop (length X - i) X = X ! (length X - i) # drop (Suc (length X - i)) X"
    by (simp add: Cons_nth_drop_Suc)
  moreover have "Suc (length X - i) = length X - (i - 1)" using assms by simp
  ultimately show ?thesis by simp
qed

lemma tail_cost_row0:
  assumes "1 \<le> j" "j \<le> length Y"
  shows "tail_cost cls X Y 0 j = tail_cost cls X Y 0 (j - 1) + c_bool (isBase cls (Y ! (length Y - j))) * 2"
  by (simp add: tail_cost_def bases_def drop_tail_step [OF assms] c_bool_def INSERTION_COST_def)

lemma tail_cost_col0:
  assumes "1 \<le> i" "i \<le> length X"
  shows "tail_cost cls X Y i 0 = tail_cost cls X Y (i - 1) 0 + 2 * c_bool (isBase cls (X ! (length X - i)))"
  by (simp add: tail_cost_def bases_def drop_tail_step [OF assms] c_bool_def INSERTION_COST_def)

lemma align_step:
  assumes "xs' = x # xs" "ys' = y # ys"
  shows "align sc xs' ys' =
           min (sc x y + align sc xs ys)
             (min (INSERTION_COST + align sc xs ys') (INSERTION_COST + align sc xs' ys))"
  unfolding assms by simp

lemma tail_cost_cell:
  assumes "1 \<le> i" "i \<le> length X" "1 \<le> j" "j \<le> length Y"
  shows "tail_cost cls X Y i j =
           cell_value cls (X ! (length X - i)) (Y ! (length Y - j))
             (tail_cost cls X Y i (j - 1)) (tail_cost cls X Y (i - 1) j) (tail_cost cls X Y (i - 1) (j - 1))"
proof -
  note dx = drop_tail_step [OF assms(1,2)]
  note dy = drop_tail_step [OF assms(3,4)]
  show ?thesis
  proof (cases "isBase cls (Y ! (length Y - j))")
    case False
    then show ?thesis by (simp add: tail_cost_def bases_def cell_value_def dy)
  next
    case yb: True
    show ?thesis
    proof (cases "isBase cls (X ! (length X - i))")
      case False
      then show ?thesis using yb by (simp add: tail_cost_def bases_def cell_value_def dx)
    next
      case True
      have l: "bases cls (drop (length X - i) X) = X ! (length X - i) # bases cls (drop (length X - (i - 1)) X)"
        using True by (simp add: bases_def dx)
      have r: "bases cls (drop (length Y - j) Y) = Y ! (length Y - j) # bases cls (drop (length Y - (j - 1)) Y)"
        using yb by (simp add: bases_def dy)
      have "tail_cost cls X Y i j =
              min (subCost_iter cls (X ! (length X - i)) (Y ! (length Y - j)) +
                     tail_cost cls X Y (i - 1) (j - 1))
                (min (INSERTION_COST + tail_cost cls X Y (i - 1) j)
                     (INSERTION_COST + tail_cost cls X Y i (j - 1)))"
        unfolding tail_cost_def by (rule align_step [OF l r])
      also have "\<dots> = cell_value cls (X ! (length X - i)) (Y ! (length Y - j))
             (tail_cost cls X Y i (j - 1)) (tail_cost cls X Y (i - 1) j) (tail_cost cls X Y (i - 1) (j - 1))"
        using True yb unfolding cell_value_def subCost_iter_def Let_def min_def
        by simp
      finally show ?thesis .
    qed
  qed
qed

lemma tail_cost_full:
  "tail_cost cls X Y (length X) (length Y) = align (subCost_iter cls) (bases cls X) (bases cls Y)"
  by (simp add: tail_cost_def)

lemma cell_update_eq:
  "cell_update cls x y j (tab, prev) =
     (tab[j := cell_value cls x y (tab ! (j - 1)) (tab ! j) prev], tab ! j)"
  by (simp add: cell_update_def cell_value_def Let_def)

lemma row_loop_0: "row_loop cls x yc 0 st = st"
  by (simp add: row_loop_def)

lemma row_loop_Suc:
  "row_loop cls x yc (Suc n) st = cell_update cls x (yc (Suc n)) (Suc n) (row_loop cls x yc n st)"
  unfolding row_loop_def by (simp del: upt_Suc add: upt_Suc_append)

lemma row_loop_inv:
  assumes len: "w < length tab"
    and t0: "tab ! 0 = cur 0"
    and up: "\<And>k. 1 \<le> k \<Longrightarrow> k \<le> w \<Longrightarrow> tab ! k = up k"
    and rec: "\<And>k. 1 \<le> k \<Longrightarrow> k \<le> w \<Longrightarrow> cur k = cell_value cls x (yc k) (cur (k - 1)) (up k) (up (k - 1))"
    and pv: "prev = up 0"
  shows "n \<le> w \<Longrightarrow>
          length (fst (row_loop cls x yc n (tab, prev))) = length tab \<and>
          (\<forall>k\<le>n. fst (row_loop cls x yc n (tab, prev)) ! k = cur k) \<and>
          (\<forall>k>n. fst (row_loop cls x yc n (tab, prev)) ! k = tab ! k) \<and>
          snd (row_loop cls x yc n (tab, prev)) = up n"
proof (induction n)
  case 0
  show ?case using t0 pv by (simp add: row_loop_0)
next
  case (Suc n)
  obtain t p where tp: "row_loop cls x yc n (tab, prev) = (t, p)" by (cases "row_loop cls x yc n (tab, prev)")
  from Suc have nw: "n \<le> w" "Suc n \<le> w" by simp_all
  from Suc.IH [OF nw(1)] tp have
    lt: "length t = length tab" and
    lo: "\<And>k. k \<le> n \<Longrightarrow> t ! k = cur k" and
    hi: "\<And>k. n < k \<Longrightarrow> t ! k = tab ! k" and
    p: "p = up n"
    by simp_all
  have tn: "t ! n = cur n" using lo by simp
  have tsn: "t ! Suc n = up (Suc n)" using hi [of "Suc n"] up [of "Suc n"] nw by simp
  have step: "row_loop cls x yc (Suc n) (tab, prev) = (t[Suc n := cur (Suc n)], up (Suc n))"
    using rec [of "Suc n"] nw by (simp add: row_loop_Suc tp cell_update_eq tn tsn p)
  have inr: "Suc n < length t" using nw len lt by simp
  show ?case unfolding step using lt lo hi inr
    by (auto simp: nth_list_update)
qed

lemma init_loop_0: "init_loop cls yc 0 tab = tab"
  by (simp add: init_loop_def)

lemma init_loop_Suc:
  "init_loop cls yc (Suc n) tab =
     (init_loop cls yc n tab)[Suc n := init_loop cls yc n tab ! n + c_bool (isBase cls (yc (Suc n))) * 2]"
  unfolding init_loop_def by (simp del: upt_Suc add: upt_Suc_append)

lemma init_loop_inv:
  assumes len: "w < length tab"
    and t0: "tab ! 0 = cur 0"
    and rec: "\<And>k. 1 \<le> k \<Longrightarrow> k \<le> w \<Longrightarrow> cur k = cur (k - 1) + c_bool (isBase cls (yc k)) * 2"
  shows "n \<le> w \<Longrightarrow>
          length (init_loop cls yc n tab) = length tab \<and>
          (\<forall>k\<le>n. init_loop cls yc n tab ! k = cur k)"
proof (induction n)
  case 0
  show ?case using t0 by (simp add: init_loop_0)
next
  case (Suc n)
  from Suc have nw: "n \<le> w" "Suc n \<le> w" by simp_all
  from Suc.IH [OF nw(1)] have
    lt: "length (init_loop cls yc n tab) = length tab" and
    lo: "\<And>k. k \<le> n \<Longrightarrow> init_loop cls yc n tab ! k = cur k"
    by simp_all
  have inr: "Suc n < length (init_loop cls yc n tab)" using nw len lt by simp
  have r: "cur (Suc n) = cur n + c_bool (isBase cls (yc (Suc n))) * 2"
    using rec [of "Suc n"] nw by simp
  have "init_loop cls yc (Suc n) tab ! k = cur k" if "k \<le> Suc n" for k
  proof (cases "k = Suc n")
    case True
    then show ?thesis using inr lo [of n] r by (simp add: init_loop_Suc)
  next
    case False
    with that have "k \<le> n" by simp
    then show ?thesis using False lo [of k] by (simp add: init_loop_Suc)
  qed
  then show ?case using lt by (simp add: init_loop_Suc)
qed

section \<open>Invariants of the row loops and of a block\<close>

lemma fold_from_1_Suc: "fold f [1..<Suc (Suc n)] st = f (Suc n) (fold f [1..<Suc n] st)"
  by (simp del: upt_Suc add: upt_Suc_append)

lemma block_rows_inv:
  fixes T :: "nat \<Rightarrow> nat \<Rightarrow> int"
  assumes lc: "length col = Suc (length X)"
    and lt: "w < length tab"
    and t0: "\<And>k. k \<le> w \<Longrightarrow> tab ! k = T 0 k"
    and c0: "col ! 0 = T 0 w"
    and cb: "\<And>i. 1 \<le> i \<Longrightarrow> i \<le> length X \<Longrightarrow> col ! i = T i 0"
    and rec: "\<And>i k. 1 \<le> i \<Longrightarrow> i \<le> length X \<Longrightarrow> 1 \<le> k \<Longrightarrow> k \<le> w \<Longrightarrow>
               T i k = cell_value cls (X ! (length X - i)) (yc k) (T i (k - 1)) (T (i - 1) k) (T (i - 1) (k - 1))"
  shows "n \<le> length X \<Longrightarrow>
          length (fst (fold (block_row cls X yc w) [1..<Suc n] (tab, col))) = length tab \<and>
          length (snd (fold (block_row cls X yc w) [1..<Suc n] (tab, col))) = length col \<and>
          (\<forall>k\<le>w. fst (fold (block_row cls X yc w) [1..<Suc n] (tab, col)) ! k = T n k) \<and>
          (\<forall>i\<le>n. snd (fold (block_row cls X yc w) [1..<Suc n] (tab, col)) ! i = T i w) \<and>
          (\<forall>i>n. snd (fold (block_row cls X yc w) [1..<Suc n] (tab, col)) ! i = col ! i)"
proof (induction n)
  case 0
  show ?case using t0 c0 by simp
next
  case (Suc n)
  obtain t c where tc: "fold (block_row cls X yc w) [1..<Suc n] (tab, col) = (t, c)"
    by (cases "fold (block_row cls X yc w) [1..<Suc n] (tab, col)")
  from Suc.prems have nM: "n \<le> length X" "Suc n \<le> length X" by simp_all
  from Suc.IH [OF nM(1)] tc have
    l1: "length t = length tab" and l2: "length c = length col" and
    tn: "\<And>k. k \<le> w \<Longrightarrow> t ! k = T n k" and
    cl: "\<And>i. i \<le> n \<Longrightarrow> c ! i = T i w" and
    ch: "\<And>i. n < i \<Longrightarrow> c ! i = col ! i"
    by simp_all
  define tab1 where "tab1 = t[0 := c ! Suc n]"
  define tab2 where "tab2 = fst (row_loop cls (X ! (length X - Suc n)) yc w (tab1, t ! 0))"
  have step: "fold (block_row cls X yc w) [1..<Suc (Suc n)] (tab, col) = (tab2, c[Suc n := tab2 ! w])"
    unfolding fold_from_1_Suc tc by (simp add: block_row_def Let_def tab1_def tab2_def)
  have csn: "c ! Suc n = T (Suc n) 0" using ch [of "Suc n"] cb [of "Suc n"] nM by simp
  have a1: "w < length tab1" using lt l1 by (simp add: tab1_def)
  have tpos: "0 < length t" using lt l1 by linarith
  have a2: "tab1 ! 0 = T (Suc n) 0" using tpos csn by (simp add: tab1_def)
  have a3: "\<And>k. 1 \<le> k \<Longrightarrow> k \<le> w \<Longrightarrow> tab1 ! k = T n k" using tn by (simp add: tab1_def)
  have a4: "\<And>k. 1 \<le> k \<Longrightarrow> k \<le> w \<Longrightarrow>
              T (Suc n) k = cell_value cls (X ! (length X - Suc n)) (yc k) (T (Suc n) (k - 1)) (T n k) (T n (k - 1))"
    using rec [of "Suc n"] nM by simp
  have a5: "t ! 0 = T n 0" using tn [of 0] by simp
  from row_loop_inv [of w tab1 "T (Suc n)" "T n" cls "X ! (length X - Suc n)" yc "t ! 0" w,
      OF a1 a2 a3 a4 a5]
  have r1: "length tab2 = length tab1" and r2: "\<And>k. k \<le> w \<Longrightarrow> tab2 ! k = T (Suc n) k"
    by (simp_all add: tab2_def)
  have inr: "Suc n < length c" using l2 lc nM by simp
  have "c[Suc n := tab2 ! w] ! i = T i w" if "i \<le> Suc n" for i
  proof (cases "i = Suc n")
    case True
    then show ?thesis using inr r2 [of w] by simp
  next
    case False
    with that have "i \<le> n" by simp
    then show ?thesis using False cl [of i] by simp
  qed
  moreover have "c[Suc n := tab2 ! w] ! i = col ! i" if "Suc n < i" for i
    using that ch [of i] by simp
  ultimately show ?case unfolding step using r1 r2 l1 l2 by (simp add: tab1_def)
qed

lemma block_correct:
  assumes lc: "length col = Suc (length X)"
    and lt: "w < length tab"
    and ow: "off + w \<le> length Y"
    and cb: "\<And>i. i \<le> length X \<Longrightarrow> col ! i = tail_cost cls X Y i off"
    and yc: "\<And>k. 1 \<le> k \<Longrightarrow> k \<le> w \<Longrightarrow> yc k = Y ! (length Y - (off + k))"
    and tab1: "tab1 = init_loop cls yc w (tab[0 := col ! 0])"
    and col1: "col1 = col[0 := tab1 ! w]"
  shows "length (fst (block_rows cls X yc w (tab1, col1))) = length tab \<and>
         length (snd (block_rows cls X yc w (tab1, col1))) = Suc (length X) \<and>
         (\<forall>i\<le>length X. snd (block_rows cls X yc w (tab1, col1)) ! i = tail_cost cls X Y i (off + w))"
proof -
  define T where "T = (\<lambda>i k. tail_cost cls X Y i (off + k))"
  have i1: "w < length (tab[0 := col ! 0])" using lt by simp
  have tpos: "0 < length tab" using lt by linarith
  have i2: "(tab[0 := col ! 0]) ! 0 = T 0 0" using tpos cb [of 0] by (simp add: T_def)
  have i3: "\<And>k. 1 \<le> k \<Longrightarrow> k \<le> w \<Longrightarrow> T 0 k = T 0 (k - 1) + c_bool (isBase cls (yc k)) * 2"
  proof -
    fix k assume k: "1 \<le> k" "k \<le> w"
    have "tail_cost cls X Y 0 (off + k) =
            tail_cost cls X Y 0 (off + k - 1) + c_bool (isBase cls (Y ! (length Y - (off + k)))) * 2"
      using k ow by (intro tail_cost_row0) simp_all
    then show "T 0 k = T 0 (k - 1) + c_bool (isBase cls (yc k)) * 2"
      using k yc [of k] by (simp add: T_def)
  qed
  from init_loop_inv [of w "tab[0 := col ! 0]" "T 0" cls yc w, OF i1 i2 i3]
  have l1: "length tab1 = length tab" and t1: "\<And>k. k \<le> w \<Longrightarrow> tab1 ! k = T 0 k"
    by (simp_all add: tab1)
  have b1: "length col1 = Suc (length X)" using lc by (simp add: col1)
  have b2: "w < length tab1" using l1 lt by simp
  have b3: "col1 ! 0 = T 0 w" using lc t1 [of w] by (simp add: col1)
  have b4: "\<And>i. 1 \<le> i \<Longrightarrow> i \<le> length X \<Longrightarrow> col1 ! i = T i 0"
    using cb by (simp add: col1 T_def)
  have b5: "\<And>i k. 1 \<le> i \<Longrightarrow> i \<le> length X \<Longrightarrow> 1 \<le> k \<Longrightarrow> k \<le> w \<Longrightarrow>
               T i k = cell_value cls (X ! (length X - i)) (yc k) (T i (k - 1)) (T (i - 1) k) (T (i - 1) (k - 1))"
  proof -
    fix i k assume h: "1 \<le> i" "i \<le> length X" "1 \<le> k" "k \<le> w"
    have "tail_cost cls X Y i (off + k) =
           cell_value cls (X ! (length X - i)) (Y ! (length Y - (off + k)))
             (tail_cost cls X Y i (off + k - 1)) (tail_cost cls X Y (i - 1) (off + k))
             (tail_cost cls X Y (i - 1) (off + k - 1))"
      using h ow by (intro tail_cost_cell) simp_all
    then show "T i k = cell_value cls (X ! (length X - i)) (yc k) (T i (k - 1)) (T (i - 1) k) (T (i - 1) (k - 1))"
      using h yc [of k] by (simp add: T_def)
  qed
  from block_rows_inv [of col1 X w tab1 T cls yc "length X", OF b1 b2 t1 b3 b4 b5]
  show ?thesis using l1 b1 by (simp add: block_rows_def T_def)
qed

lemma init_col:
  assumes "i \<le> length X"
  shows "init_loop cls (\<lambda>i. X ! (length X - i)) (length X) ((new_array (length X + 1))[0 := 0]) ! i
           = tail_cost cls X Y i 0"
    and "length (init_loop cls (\<lambda>i. X ! (length X - i)) (length X) ((new_array (length X + 1))[0 := 0]))
           = Suc (length X)"
proof -
  let ?t = "(new_array (length X + 1))[0 := 0]"
  have i1: "length X < length ?t" by (simp add: new_array_def)
  have i2: "?t ! 0 = tail_cost cls X Y 0 0" by (simp add: new_array_def tail_cost_0_0)
  have i3: "\<And>k. 1 \<le> k \<Longrightarrow> k \<le> length X \<Longrightarrow>
      tail_cost cls X Y k 0 = tail_cost cls X Y (k - 1) 0 + c_bool (isBase cls (X ! (length X - k))) * 2"
    using tail_cost_col0 [of _ X cls Y] by simp
  from init_loop_inv [of "length X" ?t "\<lambda>k. tail_cost cls X Y k 0" cls "\<lambda>i. X ! (length X - i)" "length X",
      OF i1 i2 i3]
  show "init_loop cls (\<lambda>i. X ! (length X - i)) (length X) ?t ! i = tail_cost cls X Y i 0"
    and "length (init_loop cls (\<lambda>i. X ! (length X - i)) (length X) ?t) = Suc (length X)"
    using assms by (simp_all add: new_array_def)
qed

lemma init_row:
  assumes "k \<le> length Y"
  shows "init_loop cls (\<lambda>j. Y ! (length Y - j)) (length Y) ((new_array (length Y + 1))[0 := 0]) ! k
           = tail_cost cls X Y 0 k"
    and "length (init_loop cls (\<lambda>j. Y ! (length Y - j)) (length Y) ((new_array (length Y + 1))[0 := 0]))
           = Suc (length Y)"
proof -
  let ?t = "(new_array (length Y + 1))[0 := 0]"
  have i1: "length Y < length ?t" by (simp add: new_array_def)
  have i2: "?t ! 0 = tail_cost cls X Y 0 0" by (simp add: new_array_def tail_cost_0_0)
  have i3: "\<And>k. 1 \<le> k \<Longrightarrow> k \<le> length Y \<Longrightarrow>
      tail_cost cls X Y 0 k = tail_cost cls X Y 0 (k - 1) + c_bool (isBase cls (Y ! (length Y - k))) * 2"
    using tail_cost_row0 [of _ Y cls X] by simp
  from init_loop_inv [of "length Y" ?t "\<lambda>k. tail_cost cls X Y 0 k" cls "\<lambda>j. Y ! (length Y - j)" "length Y",
      OF i1 i2 i3]
  show "init_loop cls (\<lambda>j. Y ! (length Y - j)) (length Y) ?t ! k = tail_cost cls X Y 0 k"
    and "length (init_loop cls (\<lambda>j. Y ! (length Y - j)) (length Y) ?t) = Suc (length Y)"
    using assms by (simp_all add: new_array_def)
qed

lemma iteratif_rows_inv:
  assumes lt: "length tab = Suc (length Y)"
    and t0: "\<And>k. k \<le> length Y \<Longrightarrow> tab ! k = tail_cost cls X Y 0 k"
  shows "n \<le> length X \<Longrightarrow>
          length (fold (iteratif_row cls X Y) [1..<Suc n] tab) = length tab \<and>
          (\<forall>k\<le>length Y. fold (iteratif_row cls X Y) [1..<Suc n] tab ! k = tail_cost cls X Y n k)"
proof (induction n)
  case 0
  show ?case using t0 by simp
next
  case (Suc n)
  define t where "t = fold (iteratif_row cls X Y) [1..<Suc n] tab"
  from Suc.prems have nM: "n \<le> length X" "Suc n \<le> length X" by simp_all
  from Suc.IH [OF nM(1)] have
    l1: "length t = length tab" and
    tn: "\<And>k. k \<le> length Y \<Longrightarrow> t ! k = tail_cost cls X Y n k"
    by (simp_all add: t_def)
  define tab1 where "tab1 = t[0 := t ! 0 + 2 * c_bool (isBase cls (X ! (length X - Suc n)))]"
  define tab2 where "tab2 = fst (row_loop cls (X ! (length X - Suc n)) (\<lambda>j. Y ! (length Y - j)) (length Y) (tab1, t ! 0))"
  have step: "fold (iteratif_row cls X Y) [1..<Suc (Suc n)] tab = tab2"
    unfolding fold_from_1_Suc t_def [symmetric] by (simp add: iteratif_row_def Let_def tab1_def tab2_def)
  have a1: "length Y < length tab1" using lt l1 by (simp add: tab1_def)
  have a2: "tab1 ! 0 = tail_cost cls X Y (Suc n) 0"
    using lt l1 tn [of 0] tail_cost_col0 [of "Suc n" X cls Y] nM by (simp add: tab1_def)
  have a3: "\<And>k. 1 \<le> k \<Longrightarrow> k \<le> length Y \<Longrightarrow> tab1 ! k = tail_cost cls X Y n k"
    using tn by (simp add: tab1_def)
  have a4: "\<And>k. 1 \<le> k \<Longrightarrow> k \<le> length Y \<Longrightarrow>
              tail_cost cls X Y (Suc n) k = cell_value cls (X ! (length X - Suc n)) (Y ! (length Y - k))
                  (tail_cost cls X Y (Suc n) (k - 1)) (tail_cost cls X Y n k) (tail_cost cls X Y n (k - 1))"
    using tail_cost_cell [of "Suc n" X _ Y cls] nM by simp
  have a5: "t ! 0 = tail_cost cls X Y n 0" using tn [of 0] by simp
  from row_loop_inv [of "length Y" tab1 "tail_cost cls X Y (Suc n)" "tail_cost cls X Y n" cls
      "X ! (length X - Suc n)" "\<lambda>j. Y ! (length Y - j)" "t ! 0" "length Y", OF a1 a2 a3 a4 a5]
  have r1: "length tab2 = length tab1" and r2: "\<And>k. k \<le> length Y \<Longrightarrow> tab2 ! k = tail_cost cls X Y (Suc n) k"
    by (simp_all add: tab2_def)
  show ?case unfolding step using r1 r2 l1 by (simp add: tab1_def)
qed

lemma iteratif_eq_tail_cost:
  "EditDistance_NW_iteratif cls A B =
     tail_cost cls (fst (order_sequences A B)) (snd (order_sequences A B))
       (length (fst (order_sequences A B))) (length (snd (order_sequences A B)))"
proof -
  obtain X Y where xy: "order_sequences A B = (X, Y)" by (cases "order_sequences A B")
  let ?tab0 = "init_loop cls (\<lambda>j. Y ! (length Y - j)) (length Y) ((new_array (length Y + 1))[0 := 0])"
  have l: "length ?tab0 = Suc (length Y)" using init_row(2) [of 0 Y cls] by simp
  have t: "\<And>k. k \<le> length Y \<Longrightarrow> ?tab0 ! k = tail_cost cls X Y 0 k" by (rule init_row(1))
  from iteratif_rows_inv [of ?tab0 Y cls X "length X", OF l t]
  have "iteratif_rows cls X Y ?tab0 ! length Y = tail_cost cls X Y (length X) (length Y)"
    by (simp add: iteratif_rows_def)
  then show ?thesis by (simp add: EditDistance_NW_iteratif_def xy)
qed

section \<open>The cache-aware loop\<close>

lemma cache_aware_block_correct:
  assumes lc: "length col = Suc (length X)"
    and lt: "nat nb < length tab"
    and n: "0 < n" "n \<le> length Y"
    and nb: "0 \<le> nb"
    and cb: "\<And>i. i \<le> length X \<Longrightarrow> col ! i = tail_cost cls X Y i (length Y - n)"
  shows "length (fst (cache_aware_block cls X Y nb (int n) (tab, col))) = length tab \<and>
         length (snd (cache_aware_block cls X Y nb (int n) (tab, col))) = Suc (length X) \<and>
         (\<forall>i\<le>length X. snd (cache_aware_block cls X Y nb (int n) (tab, col)) ! i
              = tail_cost cls X Y i (length Y - n + min n (nat nb)))"
proof -
  define w where "w = min n (nat nb)"
  define yc where "yc = (\<lambda>j. Y ! nat (int n - int j))"
  define tab1 where "tab1 = init_loop cls yc w (tab[0 := col ! 0])"
  define col1 where "col1 = col[0 := tab1 ! w]"
  have bw: "nat (if int n < nb then int n else nb) = w" using nb unfolding w_def min_def by auto
  have unf: "cache_aware_block cls X Y nb (int n) (tab, col) = block_rows cls X yc w (tab1, col1)"
    by (simp add: cache_aware_block_def Let_def bw yc_def tab1_def col1_def)
  have a2: "w < length tab" using lt by (simp add: w_def)
  have a3: "(length Y - n) + w \<le> length Y" using n by (simp add: w_def)
  have a5: "\<And>k. 1 \<le> k \<Longrightarrow> k \<le> w \<Longrightarrow> yc k = Y ! (length Y - ((length Y - n) + k))"
  proof -
    fix k assume "1 \<le> k" "k \<le> w"
    then have "k \<le> n" by (simp add: w_def)
    then have "nat (int n - int k) = length Y - ((length Y - n) + k)" using n by simp
    then show "yc k = Y ! (length Y - ((length Y - n) + k))" by (simp add: yc_def)
  qed
  from block_correct [OF lc a2 a3 cb a5 tab1_def col1_def]
  show ?thesis unfolding unf w_def by simp
qed

lemma cache_aware_loop_correct:
  assumes nb: "1 \<le> nb"
  shows "n \<le> length Y \<Longrightarrow> length col = Suc (length X) \<Longrightarrow> nat nb < length tab \<Longrightarrow>
         (\<And>i. i \<le> length X \<Longrightarrow> col ! i = tail_cost cls X Y i (length Y - n)) \<Longrightarrow>
         \<exists>tab' col'. cache_aware_loop cls X Y nb (int n) (tab, col) = Some (tab', col') \<and>
            col' ! length X = tail_cost cls X Y (length X) (length Y)"
proof (induction n arbitrary: tab col rule: less_induct)
  case (less n)
  show ?case
  proof (cases "n = 0")
    case True
    then show ?thesis using less.prems(4) [of "length X"]
      by (subst cache_aware_loop.simps) simp
  next
    case False
    then have npos: "0 < n" by simp
    obtain t c where tc: "cache_aware_block cls X Y nb (int n) (tab, col) = (t, c)"
      by (cases "cache_aware_block cls X Y nb (int n) (tab, col)")
    have nb0: "0 \<le> nb" using nb by simp
    from cache_aware_block_correct [OF less.prems(2,3) npos less.prems(1) nb0 less.prems(4)] tc
    have l1: "length t = length tab" and l2: "length c = Suc (length X)"
      and cv: "\<And>i. i \<le> length X \<Longrightarrow> c ! i = tail_cost cls X Y i (length Y - n + min n (nat nb))"
      by simp_all
    have unf: "cache_aware_loop cls X Y nb (int n) (tab, col) = cache_aware_loop cls X Y nb (int n - nb) (t, c)"
      using npos by (subst cache_aware_loop.simps) (simp add: tc)
    show ?thesis
    proof (cases "n \<le> nat nb")
      case True
      then have le: "\<not> 0 < int n - nb" using nb by arith
      have "length Y - n + min n (nat nb) = length Y" using True less.prems(1) by simp
      then have "c ! length X = tail_cost cls X Y (length X) (length Y)" using cv [of "length X"] by simp
      then show ?thesis unfolding unf using le
        by (subst cache_aware_loop.simps) simp
    next
      case False
      define n' where "n' = n - nat nb"
      have n'1: "n' < n" using False nb by (simp add: n'_def)
      have n'2: "int n - nb = int n'" using False nb by (simp add: n'_def)
      have n'3: "n' \<le> length Y" using less.prems(1) by (simp add: n'_def)
      have off: "length Y - n + min n (nat nb) = length Y - n'" using False less.prems(1) by (simp add: n'_def)
      have p3: "nat nb < length t" using l1 less.prems(3) by simp
      have p4: "\<And>i. i \<le> length X \<Longrightarrow> c ! i = tail_cost cls X Y i (length Y - n')"
        using cv off by simp
      from less.IH [OF n'1 n'3 l2 p3 p4]
      show ?thesis unfolding unf n'2 .
    qed
  qed
qed

lemma iteratif_value: "EditDistance_NW_iteratif cls A B = engine_value cls A B"
  by (cases "order_sequences A B") (simp add: iteratif_eq_tail_cost engine_value_def tail_cost_full)

lemma cache_aware_value:
  assumes "1 \<le> nb_case_of Z"
  shows "EditDistance_NW_cache_aware cls A B Z = Some (Inr (engine_value cls A B))"
proof -
  obtain X Y where xy: "order_sequences A B = (X, Y)" by (cases "order_sequences A B")
  let ?col = "init_loop cls (\<lambda>i. X ! (length X - i)) (length X) ((new_array (length X + 1))[0 := 0])"
  let ?tab = "(new_array (nat (nb_case_of Z + 1)))[0 := 0]"
  have p2: "length ?col = Suc (length X)" using init_col(2) [of 0 X cls] by simp
  have p3: "nat (nb_case_of Z) < length ?tab" using assms by (simp add: new_array_def)
  have p4: "\<And>i. i \<le> length X \<Longrightarrow> ?col ! i = tail_cost cls X Y i (length Y - length Y)"
    using init_col(1) [of _ X cls Y] by simp
  from cache_aware_loop_correct [OF assms _ p2 p3 p4]
  obtain tab' col' where
    r: "cache_aware_loop cls X Y (nb_case_of Z) (int (length Y)) (?tab, ?col) = Some (tab', col')"
      "col' ! length X = tail_cost cls X Y (length X) (length Y)"
    by auto
  show ?thesis using assms r
    by (simp add: EditDistance_NW_cache_aware_def xy Let_def engine_value_def tail_cost_full)
qed

lemma cache_aware_empty:
  assumes "0 \<le> nb_case_of Z" "A = [] \<or> B = []"
  shows "EditDistance_NW_cache_aware cls A B Z = Some (Inr (engine_value cls A B))"
proof -
  obtain X Y where xy: "order_sequences A B = (X, Y)" by (cases "order_sequences A B")
  have y: "Y = []" using xy assms(2) by (auto simp: order_sequences_def split: if_splits)
  let ?col = "init_loop cls (\<lambda>i. X ! (length X - i)) (length X) ((new_array (length X + 1))[0 := 0])"
  have "?col ! length X = tail_cost cls X Y (length X) 0" by (rule init_col(1)) simp
  then show ?thesis using assms(1)
    by (simp add: EditDistance_NW_cache_aware_def xy Let_def engine_value_def y
        cache_aware_loop.simps [of _ _ _ _ 0] tail_cost_full [of cls X "[]", simplified])
qed

section \<open>The cache-oblivious recursion\<close>

lemma leaf_out_of_bounds:
  assumes "0 < debut" "debut \<le> fin"
  shows "cache_oblivious_leaf cls X Y col debut fin = Inl Out_Of_Bounds"
  using assms by (simp add: cache_oblivious_leaf_def Let_def)

lemma leaf_at_0_Inr:
  assumes "0 \<le> fin"
  shows "\<exists>c. cache_oblivious_leaf cls X Y col 0 fin = Inr c"
  using assms by (simp add: cache_oblivious_leaf_def Let_def)

lemma leaf_correct:
  assumes lc: "length col = Suc (length X)"
    and cb: "\<And>i. i \<le> length X \<Longrightarrow> col ! i = tail_cost cls X Y i 0"
  shows "\<exists>c. cache_oblivious_leaf cls X Y col 0 (int (length Y)) = Inr c \<and>
             c ! length X = tail_cost cls X Y (length X) (length Y)"
proof -
  define yc where "yc = (\<lambda>j. Y ! nat (int (length Y) - int j - 0))"
  define tab1 where "tab1 = init_loop cls yc (length Y) ((new_array (Suc (length Y)))[0 := col ! 0])"
  define col1 where "col1 = col[0 := tab1 ! length Y]"
  have unf: "cache_oblivious_leaf cls X Y col 0 (int (length Y))
               = Inr (snd (block_rows cls X yc (length Y) (tab1, col1)))"
    by (simp add: cache_oblivious_leaf_def Let_def yc_def tab1_def col1_def nat_add_distrib)
  have a2: "length Y < length (new_array (Suc (length Y)))" by (simp add: new_array_def)
  have a3: "0 + length Y \<le> length Y" by simp
  have a5: "\<And>k. 1 \<le> k \<Longrightarrow> k \<le> length Y \<Longrightarrow> yc k = Y ! (length Y - (0 + k))"
  proof -
    fix k assume "1 \<le> k" "k \<le> length Y"
    then have "nat (int (length Y) - int k - 0) = length Y - (0 + k)" by simp
    then show "yc k = Y ! (length Y - (0 + k))" by (simp add: yc_def)
  qed
  from block_correct [OF lc a2 a3 cb a5 tab1_def col1_def]
  show ?thesis unfolding unf by simp
qed

lemma helper_leaf:
  assumes "fin - debut \<le> seuil"
  shows "cache_oblivious_helper cls X Y col seuil debut fin = Some (cache_oblivious_leaf cls X Y col debut fin)"
  using assms by (subst cache_oblivious_helper.simps) (simp add: Let_def)

lemma helper_split:
  assumes "seuil < fin - debut"
  shows "cache_oblivious_helper cls X Y col seuil debut fin =
           Option.bind (cache_oblivious_helper cls X Y col seuil debut (c_half (fin - debut) + debut))
             (\<lambda>r. case r of Inl e \<Rightarrow> Some (Inl e)
                   | Inr col1 \<Rightarrow> cache_oblivious_helper cls X Y col1 seuil (c_half (fin - debut) + debut) fin)"
  using assms by (subst cache_oblivious_helper.simps) (simp add: Let_def)

lemma helper_right_fails:
  assumes s: "0 \<le> seuil"
  shows "0 < debut \<Longrightarrow> debut \<le> fin \<Longrightarrow> nat (fin - debut) = n \<Longrightarrow>
         cache_oblivious_helper cls X Y col seuil debut fin = Some (Inl Out_Of_Bounds)"
proof (induction n arbitrary: fin col rule: less_induct)
  case (less n)
  show ?case
  proof (cases "fin - debut \<le> seuil")
    case True
    then show ?thesis using less.prems by (simp add: helper_leaf leaf_out_of_bounds)
  next
    case False
    then have sp: "seuil < fin - debut" by simp
    define milieu where "milieu = c_half (fin - debut) + debut"
    have m1: "debut \<le> milieu" using less.prems by (simp add: milieu_def c_half_def)
    have m2: "nat (milieu - debut) < n" using less.prems sp s unfolding milieu_def c_half_def by (simp; arith)
    from less.IH [OF m2 less.prems(1) m1 refl]
    have "cache_oblivious_helper cls X Y col seuil debut milieu = Some (Inl Out_Of_Bounds)" .
    then show ?thesis unfolding helper_split [OF sp] milieu_def [symmetric] by simp
  qed
qed

lemma helper_terminates:
  assumes s: "1 \<le> seuil"
  shows "debut \<le> fin \<Longrightarrow> nat (fin - debut) = n \<Longrightarrow>
         \<exists>r. cache_oblivious_helper cls X Y col seuil debut fin = Some r"
proof (induction n arbitrary: debut fin col rule: less_induct)
  case (less n)
  show ?case
  proof (cases "fin - debut \<le> seuil")
    case True
    then show ?thesis by (simp add: helper_leaf)
  next
    case False
    then have sp: "seuil < fin - debut" by simp
    define milieu where "milieu = c_half (fin - debut) + debut"
    have m1: "debut \<le> milieu" using less.prems by (simp add: milieu_def c_half_def)
    have m2: "nat (milieu - debut) < n" using less.prems sp s unfolding milieu_def c_half_def by (simp; arith)
    have m3: "milieu \<le> fin" using less.prems by (simp add: milieu_def c_half_def)
    have m4: "nat (fin - milieu) < n" using less.prems sp s unfolding milieu_def c_half_def by (simp; arith)
    from less.IH [OF m2 m1 refl]
    obtain r1 where r1: "cache_oblivious_helper cls X Y col seuil debut milieu = Some r1" by blast
    show ?thesis
    proof (cases r1)
      case (Inl e)
      then show ?thesis unfolding helper_split [OF sp] milieu_def [symmetric] r1 by simp
    next
      case (Inr c1)
      from less.IH [OF m4 m3 refl]
      obtain r2 where "cache_oblivious_helper cls X Y c1 seuil milieu fin = Some r2" by blast
      then show ?thesis unfolding helper_split [OF sp] milieu_def [symmetric] r1 Inr by simp
    qed
  qed
qed

lemma helper_split_fails:
  assumes s: "1 \<le> seuil"
  shows "seuil < fin \<Longrightarrow> nat fin = n \<Longrightarrow>
         cache_oblivious_helper cls X Y col seuil 0 fin = Some (Inl Out_Of_Bounds)"
proof (induction n arbitrary: fin col rule: less_induct)
  case (less n)
  have sp: "seuil < fin - 0" using less.prems by simp
  define milieu where "milieu = c_half (fin - 0) + 0"
  have m0: "0 < milieu" "milieu \<le> fin" using less.prems s by (simp_all add: milieu_def c_half_def)
  have m2: "nat milieu < n" using less.prems s unfolding milieu_def c_half_def by (simp; arith)
  have s0: "0 \<le> seuil" using s by simp
  show ?case
  proof (cases "milieu \<le> seuil")
    case True
    then have "cache_oblivious_helper cls X Y col seuil 0 milieu = Some (cache_oblivious_leaf cls X Y col 0 milieu)"
      by (simp add: helper_leaf)
    moreover obtain c where "cache_oblivious_leaf cls X Y col 0 milieu = Inr c"
      using leaf_at_0_Inr [of milieu cls X Y col] m0 by auto
    moreover have "cache_oblivious_helper cls X Y c seuil milieu fin = Some (Inl Out_Of_Bounds)"
      using helper_right_fails [OF s0 m0(1) m0(2) refl] .
    ultimately show ?thesis unfolding helper_split [OF sp] milieu_def [symmetric] by simp
  next
    case False
    then have "seuil < milieu" by simp
    from less.IH [OF m2 this refl]
    show ?thesis unfolding helper_split [OF sp] milieu_def [symmetric] by simp
  qed
qed

lemma helper_some_D:
  assumes "cache_oblivious_helper cls X Y col seuil debut fin = Some r"
  shows "seuil \<le> 0 \<and> debut = 0 \<and> 0 \<le> fin \<longrightarrow> fin \<le> seuil \<and> (\<exists>c. r = Inr c)"
proof (rule cache_oblivious_helper.raw_induct
        [where P = "\<lambda>cls X Y col seuil debut fin r.
             seuil \<le> 0 \<and> debut = 0 \<and> 0 \<le> fin \<longrightarrow> fin \<le> seuil \<and> (\<exists>c. r = Inr c)", OF _ assms],
       goal_cases)
  case (1 f cls X Y col seuil debut fin r)
  show ?case
  proof
    assume h: "seuil \<le> 0 \<and> debut = 0 \<and> 0 \<le> fin"
    show "fin \<le> seuil \<and> (\<exists>c. r = Inr c)"
    proof (cases "seuil < fin")
      case False
      then have "r = cache_oblivious_leaf cls X Y col 0 fin" using 1(2) h by (simp add: Let_def)
      then show ?thesis using False leaf_at_0_Inr [of fin cls X Y col] h by auto
    next
      case True
      have mpos: "0 \<le> c_half fin" using h by (simp add: c_half_def)
      from 1(2) True h have b: "Option.bind (f cls X Y col seuil 0 (c_half fin))
          (case_sum (\<lambda>e. Some (Inl e)) (\<lambda>col1. f cls X Y col1 seuil (c_half fin) fin)) = Some r"
        by (simp add: Let_def)
      then obtain r1 where r1: "f cls X Y col seuil 0 (c_half fin) = Some r1"
        and g: "case_sum (\<lambda>e. Some (Inl e)) (\<lambda>col1. f cls X Y col1 seuil (c_half fin) fin) r1 = Some r"
        by (auto simp: bind_eq_Some_conv)
      from 1(1) [OF r1] h mpos have m: "c_half fin \<le> seuil" and "\<exists>c. r1 = Inr c" by simp_all
      then obtain c1 where c1: "r1 = Inr c1" by blast
      have mz: "c_half fin = 0" using m h mpos by simp
      from g c1 mz have "f cls X Y c1 seuil 0 fin = Some r" by simp
      from 1(1) [OF this] h have "fin \<le> seuil" by simp
      with True show ?thesis by simp
    qed
  qed
qed

lemma helper_diverges:
  assumes "seuil \<le> 0" "0 \<le> fin" "seuil < fin"
  shows "cache_oblivious_helper cls X Y col seuil 0 fin = None"
proof (cases "cache_oblivious_helper cls X Y col seuil 0 fin")
  case (Some r)
  from helper_some_D [OF Some] assms show ?thesis by simp
qed simp

lemma cache_oblivious_value:
  assumes "int (min (length A) (length B)) \<le> seuil"
  shows "EditDistance_NW_cache_oblivious cls A B seuil = Some (Inr (engine_value cls A B))"
proof -
  obtain X Y where xy: "order_sequences A B = (X, Y)" by (cases "order_sequences A B")
  have ly: "length Y = min (length A) (length B)" using xy by (auto simp: order_sequences_def split: if_splits)
  let ?col = "init_loop cls (\<lambda>i. X ! (length X - i)) (length X) ((new_array (length X + 1))[0 := 0])"
  have p2: "length ?col = Suc (length X)" using init_col(2) [of 0 X cls] by simp
  have p4: "\<And>i. i \<le> length X \<Longrightarrow> ?col ! i = tail_cost cls X Y i 0"
    using init_col(1) [of _ X cls Y] by simp
  from leaf_correct [OF p2 p4] obtain c where
    c: "cache_oblivious_leaf cls X Y ?col 0 (int (length Y)) = Inr c"
       "c ! length X = tail_cost cls X Y (length X) (length Y)" by blast
  have "cache_oblivious_helper cls X Y ?col seuil 0 (int (length Y)) = Some (Inr c)"
    using assms ly c(1) by (simp add: helper_leaf)
  then show ?thesis using c(2)
    by (simp add: EditDistance_NW_cache_oblivious_def xy engine_value_def tail_cost_full)
qed

lemma cache_oblivious_fails:
  assumes "1 \<le> seuil" "seuil < int (min (length A) (length B))"
  shows "EditDistance_NW_cache_oblivious cls A B seuil = Some (Inl Out_Of_Bounds)"
proof -
  obtain X Y where xy: "order_sequences A B = (X, Y)" by (cases "order_sequences A B")
  have ly: "length Y = min (length A) (length B)" using xy by (auto simp: order_sequences_def split: if_splits)
  show ?thesis using assms ly helper_split_fails [OF assms(1) _ refl, of "int (length Y)" cls X Y]
    by (simp add: EditDistance_NW_cache_oblivious_def xy)
qed

lemma cache_oblivious_diverges:
  assumes "seuil \<le> 0" "seuil < int (min (length A) (length B))"
  shows "EditDistance_NW_cache_oblivious cls A B seuil = None"
proof -
  obtain X Y where xy: "order_sequences A B = (X, Y)" by (cases "order_sequences A B")
  have ly: "length Y = min (length A) (length B)" using xy by (auto simp: order_sequences_def split: if_splits)
  show ?thesis using assms ly helper_diverges [OF assms(1), of "int (length Y)" cls X Y]
    by (simp add: EditDistance_NW_cache_oblivious_def xy)
qed

section \<open>The memoized recursion\<close>

lemma memo_store_ok:
  assumes "memo_ok cls c s" "i \<le> ctx_M c" "j \<le> ctx_N c"
    and "res = phi cls (subCost_rec cls) (ctx_X c) (ctx_Y c) i j"
  shows "memo_ok cls c (snd (memo_store i j res s))"
  using assms unfolding memo_ok_def memo_store_def
  by (auto simp: nth_list_update)

lemma memo_store_reported: "reported (snd (memo_store i j res s)) = reported s"
  by (simp add: memo_store_def)

lemma memo_store_fst: "fst (memo_store i j res s) = res"
  by (simp add: memo_store_def)

lemma memo_store_eq: "memo_store i j res s = (res, snd (memo_store i j res s))"
  by (simp add: memo_store_def)

lemma ManageBaseError_ok: "memo_ok cls c (ManageBaseError ch s) = memo_ok cls c s"
  by (simp add: memo_ok_def ManageBaseError_def)

lemma reports_extend_refl: "reports_extend cls c s s"
  by (simp add: reports_extend_def)

lemma reports_extend_trans:
  "reports_extend cls c s s1 \<Longrightarrow> reports_extend cls c s1 s2 \<Longrightarrow> reports_extend cls c s s2"
  unfolding reports_extend_def by (metis append.assoc set_append UnE)

lemma reports_extend_store:
  "reports_extend cls c s s1 \<Longrightarrow> reports_extend cls c s (snd (memo_store i j res s1))"
  by (simp add: reports_extend_def memo_store_reported)

lemma reports_extend_report:
  assumes "\<not> isBase cls ch" "ch \<in> set (ctx_X c) \<or> ch \<in> set (ctx_Y c)"
  shows "reports_extend cls c s (ManageBaseError ch s)"
  using assms by (simp add: reports_extend_def ManageBaseError_def)

lemma RecMemo_correct:
  assumes wf: "ctx_M c = length (ctx_X c)" "ctx_N c = length (ctx_Y c)"
  shows "(ctx_M c - i) + (ctx_N c - j) = k \<Longrightarrow> i \<le> ctx_M c \<Longrightarrow> j \<le> ctx_N c \<Longrightarrow> memo_ok cls c s \<Longrightarrow>
         \<exists>s'. EditDistance_NW_RecMemo cls c i j s
                 = Inr (phi cls (subCost_rec cls) (ctx_X c) (ctx_Y c) i j, s') \<and>
              memo_ok cls c s' \<and> reports_extend cls c s s'"
proof (induction k arbitrary: i j s rule: less_induct)
  case (less k)
  let ?R = "EditDistance_NW_RecMemo cls c"
  let ?P = "phi cls (subCost_rec cls) (ctx_X c) (ctx_Y c)"
  note ij = less.prems(2,3)
  note ok = less.prems(4)
  have inr: "\<not> (ctx_M c < i \<or> ctx_N c < j)" using ij by simp
  show ?case
  proof (cases "memo s ! i ! j \<noteq> NOT_YET_COMPUTED")
    case True
    then have "memo s ! i ! j = ?P i j" using ok ij unfolding memo_ok_def by blast
    then show ?thesis using True inr ok
      by (subst EditDistance_NW_RecMemo.simps) (simp add: reports_extend_refl)
  next
    case False
    then have nyc: "memo s ! i ! j = NOT_YET_COMPUTED" by simp
    show ?thesis
    proof (cases "i = ctx_M c")
      case iM: True
      show ?thesis
      proof (cases "j = ctx_N c")
        case jN: True
        have p: "?P i j = 0" using iM jN wf by (subst phi.simps) simp
        have "?R i j s = Inr (memo_store i j 0 s)" using inr nyc iM jN
          by (subst EditDistance_NW_RecMemo.simps) simp
        then have "?R i j s = Inr (?P i j, snd (memo_store i j 0 s))"
          using p memo_store_eq [of i j 0 s] by simp
        moreover have "memo_ok cls c (snd (memo_store i j 0 s))"
          using ok ij p by (intro memo_store_ok) simp_all
        moreover have "reports_extend cls c s (snd (memo_store i j 0 s))"
          by (intro reports_extend_store reports_extend_refl)
        ultimately show ?thesis by blast
      next
        case jN: False
        then have jlt: "j < ctx_N c" using ij by simp
        have m: "(ctx_M c - i) + (ctx_N c - (j + 1)) < k" using less.prems(1) jlt by simp
        from less.IH [OF m refl ij(1) _ ok] jlt obtain s1 where
          r: "?R i (j + 1) s = Inr (?P i (j + 1), s1)" and ok1: "memo_ok cls c s1"
          and e1: "reports_extend cls c s s1" by auto
        define res where "res = (if isBase cls (ctx_Y c ! j) then INSERTION_COST else 0) + ?P i (j + 1)"
        have p: "?P i j = res" using iM jlt wf unfolding res_def by (subst phi.simps) simp
        have cy: "c_string_at (ctx_Y c) j = ctx_Y c ! j" using jlt wf by (simp add: c_string_at_def)
        have "?R i j s = Inr (memo_store i j res s1)" using inr nyc iM jN r
          by (subst EditDistance_NW_RecMemo.simps) (simp add: Let_def cy res_def)
        then have "?R i j s = Inr (?P i j, snd (memo_store i j res s1))"
          using p memo_store_eq [of i j res s1] by simp
        moreover have "memo_ok cls c (snd (memo_store i j res s1))"
          using ok1 ij p by (intro memo_store_ok) simp_all
        moreover have "reports_extend cls c s (snd (memo_store i j res s1))"
          using e1 by (intro reports_extend_store)
        ultimately show ?thesis by blast
      qed
    next
      case iM: False
      then have ilt: "i < ctx_M c" using ij by simp
      have cx: "c_string_at (ctx_X c) i = ctx_X c ! i" using ilt wf by (simp add: c_string_at_def)
      have xin: "ctx_X c ! i \<in> set (ctx_X c)" using ilt wf by simp
      show ?thesis
      proof (cases "j = ctx_N c")
        case jN: True
        have m: "(ctx_M c - (i + 1)) + (ctx_N c - j) < k" using less.prems(1) ilt by simp
        from less.IH [OF m refl _ ij(2) ok] ilt obtain s1 where
          r: "?R (i + 1) j s = Inr (?P (i + 1) j, s1)" and ok1: "memo_ok cls c s1"
          and e1: "reports_extend cls c s s1" by auto
        define res where "res = (if isBase cls (ctx_X c ! i) then INSERTION_COST else 0) + ?P (i + 1) j"
        have p: "?P i j = res" using ilt jN wf unfolding res_def by (subst phi.simps) simp
        have "?R i j s = Inr (memo_store i j res s1)" using inr nyc iM jN r
          by (subst EditDistance_NW_RecMemo.simps) (simp add: Let_def cx res_def)
        then have "?R i j s = Inr (?P i j, snd (memo_store i j res s1))"
          using p memo_store_eq [of i j res s1] by simp
        moreover have "memo_ok cls c (snd (memo_store i j res s1))"
          using ok1 ij p by (intro memo_store_ok) simp_all
        moreover have "reports_extend cls c s (snd (memo_store i j res s1))"
          using e1 by (intro reports_extend_store)
        ultimately show ?thesis by blast
      next
        case jN: False
        then have jlt: "j < ctx_N c" using ij by simp
        have cy: "c_string_at (ctx_Y c) j = ctx_Y c ! j" using jlt wf by (simp add: c_string_at_def)
        have yin: "ctx_Y c ! j \<in> set (ctx_Y c)" using jlt wf by simp
        show ?thesis
        proof (cases "isBase cls (ctx_X c ! i)")
          case xb: False
          let ?s0 = "ManageBaseError (ctx_X c ! i) s"
          have ok0: "memo_ok cls c ?s0" using ok by (simp add: ManageBaseError_ok)
          have e0: "reports_extend cls c s ?s0" using xb xin by (intro reports_extend_report) simp_all
          have m: "(ctx_M c - (i + 1)) + (ctx_N c - j) < k" using less.prems(1) ilt by simp
          from less.IH [OF m refl _ ij(2) ok0] ilt obtain s1 where
            r: "?R (i + 1) j ?s0 = Inr (?P (i + 1) j, s1)" and ok1: "memo_ok cls c s1"
            and e1: "reports_extend cls c ?s0 s1" by auto
          have p: "?P i j = ?P (i + 1) j" using ilt jlt wf xb by (subst phi.simps) simp
          have "?R i j s = Inr (memo_store i j (?P (i + 1) j) s1)" using inr nyc iM jN xb r
            by (subst EditDistance_NW_RecMemo.simps) (simp add: Let_def cx)
          then have "?R i j s = Inr (?P i j, snd (memo_store i j (?P (i + 1) j) s1))"
            using p memo_store_eq [of i j "?P (i + 1) j" s1] by simp
          moreover have "memo_ok cls c (snd (memo_store i j (?P (i + 1) j) s1))"
            using ok1 ij p by (intro memo_store_ok) simp_all
          moreover have "reports_extend cls c s (snd (memo_store i j (?P (i + 1) j) s1))"
            using reports_extend_trans [OF e0 e1] by (intro reports_extend_store)
          ultimately show ?thesis by blast
        next
          case xb: True
          show ?thesis
          proof (cases "isBase cls (ctx_Y c ! j)")
            case yb: False
            let ?s0 = "ManageBaseError (ctx_Y c ! j) s"
            have ok0: "memo_ok cls c ?s0" using ok by (simp add: ManageBaseError_ok)
            have e0: "reports_extend cls c s ?s0" using yb yin by (intro reports_extend_report) simp_all
            have m: "(ctx_M c - i) + (ctx_N c - (j + 1)) < k" using less.prems(1) jlt by simp
            from less.IH [OF m refl ij(1) _ ok0] jlt obtain s1 where
              r: "?R i (j + 1) ?s0 = Inr (?P i (j + 1), s1)" and ok1: "memo_ok cls c s1"
              and e1: "reports_extend cls c ?s0 s1" by auto
            have p: "?P i j = ?P i (j + 1)" using ilt jlt wf xb yb by (subst phi.simps) simp
            have "?R i j s = Inr (memo_store i j (?P i (j + 1)) s1)" using inr nyc iM jN xb yb r
              by (subst EditDistance_NW_RecMemo.simps) (simp add: Let_def cx cy)
            then have "?R i j s = Inr (?P i j, snd (memo_store i j (?P i (j + 1)) s1))"
              using p memo_store_eq [of i j "?P i (j + 1)" s1] by simp
            moreover have "memo_ok cls c (snd (memo_store i j (?P i (j + 1)) s1))"
              using ok1 ij p by (intro memo_store_ok) simp_all
            moreover have "reports_extend cls c s (snd (memo_store i j (?P i (j + 1)) s1))"
              using reports_extend_trans [OF e0 e1] by (intro reports_extend_store)
            ultimately show ?thesis by blast
          next
            case yb: True
            have m1: "(ctx_M c - (i + 1)) + (ctx_N c - (j + 1)) < k" using less.prems(1) ilt by simp
            have m2: "(ctx_M c - (i + 1)) + (ctx_N c - j) < k" using less.prems(1) ilt by simp
            have m3: "(ctx_M c - i) + (ctx_N c - (j + 1)) < k" using less.prems(1) jlt by simp
            from less.IH [OF m1 refl _ _ ok] ilt jlt obtain s1 where
              r1: "?R (i + 1) (j + 1) s = Inr (?P (i + 1) (j + 1), s1)" and ok1: "memo_ok cls c s1"
              and e1: "reports_extend cls c s s1" by auto
            from less.IH [OF m2 refl _ ij(2) ok1] ilt obtain s2 where
              r2: "?R (i + 1) j s1 = Inr (?P (i + 1) j, s2)" and ok2: "memo_ok cls c s2"
              and e2: "reports_extend cls c s1 s2" by auto
            from less.IH [OF m3 refl ij(1) _ ok2] jlt obtain s3 where
              r3: "?R i (j + 1) s2 = Inr (?P i (j + 1), s3)" and ok3: "memo_ok cls c s3"
              and e3: "reports_extend cls c s2 s3" by auto
            define res where "res = min (subCost_rec cls (ctx_X c ! i) (ctx_Y c ! j) + ?P (i + 1) (j + 1))
                 (min (INSERTION_COST + ?P (i + 1) j) (INSERTION_COST + ?P i (j + 1)))"
            have p: "?P i j = res" using ilt jlt wf xb yb unfolding res_def by (subst phi.simps) simp
            have "?R i j s = Inr (memo_store i j res s3)" using inr nyc iM jN xb yb r1 r2 r3
              by (subst EditDistance_NW_RecMemo.simps)
                 (simp add: Let_def cx cy res_def subCost_rec_def min_def)
            then have "?R i j s = Inr (?P i j, snd (memo_store i j res s3))"
              using p memo_store_eq [of i j res s3] by simp
            moreover have "memo_ok cls c (snd (memo_store i j res s3))"
              using ok3 ij p by (intro memo_store_ok) simp_all
            moreover have "reports_extend cls c s (snd (memo_store i j res s3))"
              using reports_extend_trans [OF reports_extend_trans [OF e1 e2] e3]
              by (intro reports_extend_store)
            ultimately show ?thesis by blast
          qed
        qed
      qed
    qed
  qed
qed

section \<open>The entry points\<close>

lemma initial_memo_ok:
  assumes "ctx_M c = m" "ctx_N c = n"
  shows "memo_ok cls c \<lparr> memo = replicate (m + 1) (replicate (n + 1) NOT_YET_COMPUTED), reported = r \<rparr>"
  using assms by (simp add: memo_ok_def less_Suc_eq_le del: replicate_Suc)

lemma Rec_run_ordered:
  assumes xy: "order_sequences A B = (X, Y)"
  shows "\<exists>log. EditDistance_NW_Rec_run cls A B = Inr (phi cls (subCost_rec cls) X Y 0 0, log) \<and>
           (\<forall>ch\<in>set log. \<not> isBase cls ch \<and> (ch \<in> set X \<or> ch \<in> set Y))"
proof -
  define c where "c = \<lparr> ctx_X = X, ctx_Y = Y, ctx_M = length X, ctx_N = length Y \<rparr>"
  define s0 where "s0 = \<lparr> memo = replicate (length X + 1) (replicate (length Y + 1) NOT_YET_COMPUTED),
                 reported = [] \<rparr>"
  have wf: "ctx_M c = length (ctx_X c)" "ctx_N c = length (ctx_Y c)" by (simp_all add: c_def)
  have ok: "memo_ok cls c s0" unfolding s0_def by (rule initial_memo_ok) (simp_all add: c_def)
  from RecMemo_correct [OF wf refl _ _ ok, of 0 0] obtain s' where
    r: "EditDistance_NW_RecMemo cls c 0 0 s0 = Inr (phi cls (subCost_rec cls) (ctx_X c) (ctx_Y c) 0 0, s')"
    and e: "reports_extend cls c s0 s'" by auto
  from e have "\<forall>ch\<in>set (reported s'). \<not> isBase cls ch \<and> (ch \<in> set X \<or> ch \<in> set Y)"
    by (auto simp: reports_extend_def s0_def c_def)
  moreover have "EditDistance_NW_Rec_run cls A B =
      (case EditDistance_NW_RecMemo cls c 0 0 s0 of Inl e \<Rightarrow> Inl e | Inr (res, s) \<Rightarrow> Inr (res, reported s))"
    by (simp add: EditDistance_NW_Rec_run_def xy Let_def c_def s0_def)
  then have "EditDistance_NW_Rec_run cls A B = Inr (phi cls (subCost_rec cls) X Y 0 0, reported s')"
    unfolding r by (simp add: c_def)
  ultimately show ?thesis by blast
qed

lemma Rec_value: "EditDistance_NW_Rec cls A B = Inr (rec_value cls A B)"
proof -
  obtain X Y where xy: "order_sequences A B = (X, Y)" by (cases "order_sequences A B")
  from Rec_run_ordered [OF xy] obtain log where
    "EditDistance_NW_Rec_run cls A B = Inr (phi cls (subCost_rec cls) X Y 0 0, log)" by blast
  then show ?thesis
    by (simp add: EditDistance_NW_Rec_def rec_value_def xy phi_align)
qed

lemma Rec_first_report:
  assumes xy: "order_sequences A B = (X, Y)" and ne: "X \<noteq> []" "Y \<noteq> []"
  shows "\<not> isBase cls (X ! 0) \<Longrightarrow>
           \<exists>v log. EditDistance_NW_Rec_run cls A B = Inr (v, X ! 0 # log)"
    and "isBase cls (X ! 0) \<Longrightarrow> \<not> isBase cls (Y ! 0) \<Longrightarrow>
           \<exists>v log. EditDistance_NW_Rec_run cls A B = Inr (v, Y ! 0 # log)"
proof -
  define c where "c = \<lparr> ctx_X = X, ctx_Y = Y, ctx_M = length X, ctx_N = length Y \<rparr>"
  define s0 where "s0 = \<lparr> memo = replicate (length X + 1) (replicate (length Y + 1) NOT_YET_COMPUTED),
                 reported = [] \<rparr>"
  have wf: "ctx_M c = length (ctx_X c)" "ctx_N c = length (ctx_Y c)" by (simp_all add: c_def)
  have ok: "memo_ok cls c s0" unfolding s0_def by (rule initial_memo_ok) (simp_all add: c_def)
  have pos: "0 < length X" "0 < length Y" using ne by simp_all
  have nyc: "memo s0 ! 0 ! 0 = NOT_YET_COMPUTED" by (simp add: s0_def)
  have cx: "c_string_at X 0 = X ! 0" and cy: "c_string_at Y 0 = Y ! 0"
    using pos by (simp_all add: c_string_at_def)
  have run: "EditDistance_NW_Rec_run cls A B =
      (case EditDistance_NW_RecMemo cls c 0 0 s0 of Inl e \<Rightarrow> Inl e | Inr (res, s) \<Rightarrow> Inr (res, reported s))"
    by (simp add: EditDistance_NW_Rec_run_def xy Let_def c_def s0_def)
  {
    assume xb: "\<not> isBase cls (X ! 0)"
    let ?s1 = "ManageBaseError (X ! 0) s0"
    have ok1: "memo_ok cls c ?s1" using ok by (simp add: ManageBaseError_ok)
    from RecMemo_correct [OF wf refl _ _ ok1, of 1 0] pos obtain v s' where
      r: "EditDistance_NW_RecMemo cls c 1 0 ?s1 = Inr (v, s')"
      and e: "reports_extend cls c ?s1 s'" by (auto simp: c_def)
    from e obtain new where "reported s' = X ! 0 # new"
      by (auto simp: reports_extend_def ManageBaseError_def s0_def)
    moreover have "EditDistance_NW_RecMemo cls c 0 0 s0 = Inr (memo_store 0 0 v s')"
      using pos nyc xb r
      by (subst EditDistance_NW_RecMemo.simps) (simp add: c_def cx Let_def)
    ultimately show "\<exists>v log. EditDistance_NW_Rec_run cls A B = Inr (v, X ! 0 # log)"
      unfolding run by (simp add: memo_store_def)
  }
  {
    assume xb: "isBase cls (X ! 0)" and yb: "\<not> isBase cls (Y ! 0)"
    let ?s1 = "ManageBaseError (Y ! 0) s0"
    have ok1: "memo_ok cls c ?s1" using ok by (simp add: ManageBaseError_ok)
    from RecMemo_correct [OF wf refl _ _ ok1, of 0 1] pos obtain v s' where
      r: "EditDistance_NW_RecMemo cls c 0 1 ?s1 = Inr (v, s')"
      and e: "reports_extend cls c ?s1 s'" by (auto simp: c_def)
    from e obtain new where "reported s' = Y ! 0 # new"
      by (auto simp: reports_extend_def ManageBaseError_def s0_def)
    moreover have "EditDistance_NW_RecMemo cls c 0 0 s0 = Inr (memo_store 0 0 v s')"
      using pos nyc xb yb r
      by (subst EditDistance_NW_RecMemo.simps) (simp add: c_def cx cy Let_def)
    ultimately show "\<exists>v log. EditDistance_NW_Rec_run cls A B = Inr (v, Y ! 0 # log)"
      unfolding run by (simp add: memo_store_def)
  }
qed

lemma set_bases: "set (bases cls str) = {ch \<in> set str. isBase cls ch}"
  by (auto simp: bases_def)

lemma order_sequences_swap:
  "length A \<noteq> length B \<Longrightarrow> order_sequences B A = order_sequences A B"
  "length A = length B \<Longrightarrow> order_sequences A B = (A, B) \<and> order_sequences B A = (B, A)"
  by (auto simp: order_sequences_def)

lemma engine_value_sym:
  assumes "\<And>x y. isSameBase cls x y = isSameBase cls y x"
  shows "engine_value cls A B = engine_value cls B A"
proof (cases "length A = length B")
  case True
  have "align (subCost_iter cls) (bases cls A) (bases cls B) = align (subCost_iter cls) (bases cls B) (bases cls A)"
    by (rule align_sym) (simp add: subCost_iter_def assms)
  then show ?thesis using order_sequences_swap(2) [OF True] by (simp add: engine_value_def)
next
  case False
  then show ?thesis using order_sequences_swap(1) [OF False] by (simp add: engine_value_def)
qed

lemma rec_value_sym:
  assumes "\<And>x y. isSameBase cls x y = isSameBase cls y x"
    and "\<And>x y. isSameBase cls x y \<Longrightarrow> isUnknownBase cls x = isUnknownBase cls y"
  shows "rec_value cls A B = rec_value cls B A"
proof (cases "length A = length B")
  case True
  have "subCost_rec cls x y = subCost_rec cls y x" for x y
    using assms(1) [of x y] assms(2) [of x y]
    by (auto simp: subCost_rec_def SUBSTITUTION_COST_def SUBSTITUTION_UNKNOWN_COST_def)
  then have "align (subCost_rec cls) (bases cls A) (bases cls B) = align (subCost_rec cls) (bases cls B) (bases cls A)"
    by (intro align_sym)
  then show ?thesis using order_sequences_swap(2) [OF True] by (simp add: rec_value_def)
next
  case False
  then show ?thesis using order_sequences_swap(1) [OF False] by (simp add: rec_value_def)
qed

lemma cache_aware_bad_size:
  assumes "nb_case_of Z < 0"
  shows "EditDistance_NW_cache_aware cls A B Z = Some (Inl Bad_Array_Size)"
proof -
  have "nb_case_of Z + 1 \<le> 0" using assms by simp
  then show ?thesis
    by (cases "order_sequences A B") (simp add: EditDistance_NW_cache_aware_def Let_def)
qed

lemma cache_aware_loop_some_D:
  assumes "cache_aware_loop cls X Y nb N st = Some y"
  shows "\<not> (nb = 0 \<and> 0 < N)"
proof (rule cache_aware_loop.raw_induct
        [where P = "\<lambda>cls X Y nb N st y. \<not> (nb = 0 \<and> 0 < N)", OF _ assms], goal_cases)
  case (1 f cls X Y nb N st y)
  show ?case
  proof
    assume h: "nb = 0 \<and> 0 < N"
    with 1(2) have "f cls X Y nb N (cache_aware_block cls X Y nb N st) = Some y" by simp
    from 1(1) [OF this] h show False by simp
  qed
qed

lemma cache_aware_loop_diverges: "0 < N \<Longrightarrow> cache_aware_loop cls X Y 0 N st = None"
  using cache_aware_loop_some_D [of cls X Y 0 N st] by (cases "cache_aware_loop cls X Y 0 N st") auto

lemma cache_aware_diverges:
  assumes "nb_case_of Z = 0" "A \<noteq> []" "B \<noteq> []"
  shows "EditDistance_NW_cache_aware cls A B Z = None"
proof -
  obtain X Y where xy: "order_sequences A B = (X, Y)" by (cases "order_sequences A B")
  have "Y \<noteq> []" using xy assms(2,3) by (auto simp: order_sequences_def split: if_splits)
  then have "0 < int (length Y)" by simp
  then show ?thesis using assms(1)
    by (simp add: EditDistance_NW_cache_aware_def xy Let_def cache_aware_loop_diverges)
qed

lemma cache_aware_sym:
  assumes "\<And>x y. isSameBase cls x y = isSameBase cls y x"
  shows "EditDistance_NW_cache_aware cls A B Z = EditDistance_NW_cache_aware cls B A Z"
proof -
  note ev = engine_value_sym [of cls A B, OF assms]
  consider "nb_case_of Z < 0" | "1 \<le> nb_case_of Z" | "nb_case_of Z = 0" "A = [] \<or> B = []"
    | "nb_case_of Z = 0" "A \<noteq> []" "B \<noteq> []" by fastforce
  then show ?thesis
  proof cases
    case 1
    then show ?thesis by (simp add: cache_aware_bad_size)
  next
    case 2
    then show ?thesis by (simp add: cache_aware_value ev)
  next
    case 3
    then have "0 \<le> nb_case_of Z" "B = [] \<or> A = []" by auto
    then show ?thesis using 3 cache_aware_empty [of Z A B cls] cache_aware_empty [of Z B A cls] ev by simp
  next
    case 4
    then show ?thesis by (simp add: cache_aware_diverges)
  qed
qed

lemma cache_oblivious_sym:
  assumes "\<And>x y. isSameBase cls x y = isSameBase cls y x"
  shows "EditDistance_NW_cache_oblivious cls A B seuil = EditDistance_NW_cache_oblivious cls B A seuil"
proof -
  note ev = engine_value_sym [of cls A B, OF assms]
  let ?n = "int (min (length A) (length B))"
  have mc: "int (min (length B) (length A)) = ?n" by (simp add: min.commute)
  consider "?n \<le> seuil" | "1 \<le> seuil" "seuil < ?n" | "seuil \<le> 0" "seuil < ?n" by linarith
  then show ?thesis
  proof cases
    case 1
    then show ?thesis using cache_oblivious_value [of A B seuil cls] cache_oblivious_value [of B A seuil cls] ev mc
      by simp
  next
    case 2
    then show ?thesis using cache_oblivious_fails [of seuil A B cls] cache_oblivious_fails [of seuil B A cls] mc
      by simp
  next
    case 3
    then show ?thesis using cache_oblivious_diverges [of seuil A B cls] cache_oblivious_diverges [of seuil B A cls] mc
      by simp
  qed
qed

section \<open>The block width of a non-negative budget\<close>

lemma nb_case_of_nonneg:
  assumes "0 \<le> sint Z"
  shows "nb_case_of Z = sint Z div 40"
proof -
  have b: "sint Z < 2 ^ 31" using sint_lt [of Z] by simp
  have up: "sint (scast Z :: 64 word) = sint Z"
    by (rule sint_up_scast) (simp add: is_up)
  have "uint (scast Z :: 64 word) = take_bit 64 (sint (scast Z :: 64 word))"
    using uint_sint [of "scast Z :: 64 word"] by simp
  also have "\<dots> = sint Z" unfolding up using assms b by (simp add: take_bit_int_eq_self)
  finally have u64: "uint (scast Z :: 64 word) = sint Z" .
  have q: "uint ((scast Z :: 64 word) div 40) = sint Z div 40"
    by (simp add: uint_div u64)
  have q0: "0 \<le> sint Z div 40" using assms by simp
  have q31: "sint Z div 40 < 2 ^ 31" using b assms by simp
  have u32: "uint (ucast ((scast Z :: 64 word) div 40) :: 32 word) = sint Z div 40"
    using q q0 q31 by (simp add: unsigned_ucast_eq take_bit_int_eq_self)
  have "sint (ucast ((scast Z :: 64 word) div 40) :: 32 word)
          = signed_take_bit 31 (uint (ucast ((scast Z :: 64 word) div 40) :: 32 word))"
    using sint_uint [of "ucast ((scast Z :: 64 word) div 40) :: 32 word"] by simp
  also have "\<dots> = sint Z div 40" unfolding u32 using q0 q31
    by (intro signed_take_bit_int_eq_self) simp_all
  finally show ?thesis by (simp add: nb_case_of_def)
qed

section \<open>Ranges, and non-base characters\<close>

lemma align_upper: "align sc xs ys \<le> INSERTION_COST * int (length xs + length ys)"
proof (induction sc xs ys rule: align.induct)
  case (4 sc x xs y ys)
  have "align sc (x # xs) (y # ys) \<le> INSERTION_COST + align sc xs (y # ys)" by simp
  also have "\<dots> \<le> INSERTION_COST + INSERTION_COST * int (length xs + length (y # ys))"
    using 4(2) by simp
  also have "\<dots> = INSERTION_COST * int (length (x # xs) + length (y # ys))"
    by (simp add: algebra_simps)
  finally show ?case .
qed (simp_all add: algebra_simps)

lemma engine_value_range:
  "0 \<le> engine_value cls A B \<and> engine_value cls A B \<le> 2 * int (length A + length B)"
proof -
  obtain X Y where xy: "order_sequences A B = (X, Y)" by (cases "order_sequences A B")
  have l: "length X + length Y = length A + length B"
    using xy by (auto simp: order_sequences_def split: if_splits)
  have "0 \<le> align (subCost_iter cls) (bases cls X) (bases cls Y)"
    by (rule align_nonneg) (simp add: subCost_iter_def c_bool_def)
  moreover have "align (subCost_iter cls) (bases cls X) (bases cls Y)
        \<le> INSERTION_COST * int (length (bases cls X) + length (bases cls Y))"
    by (rule align_upper)
  moreover have "length (bases cls X) + length (bases cls Y) \<le> length X + length Y"
    by (simp add: bases_def add_mono)
  ultimately show ?thesis using l
    by (simp add: engine_value_def xy INSERTION_COST_def)
qed

lemma rec_value_range:
  "0 \<le> rec_value cls A B \<and> rec_value cls A B \<le> 2 * int (length A + length B)"
proof -
  obtain X Y where xy: "order_sequences A B = (X, Y)" by (cases "order_sequences A B")
  have l: "length X + length Y = length A + length B"
    using xy by (auto simp: order_sequences_def split: if_splits)
  have "0 \<le> align (subCost_rec cls) (bases cls X) (bases cls Y)"
    by (rule align_nonneg)
       (simp add: subCost_rec_def SUBSTITUTION_COST_def SUBSTITUTION_UNKNOWN_COST_def)
  moreover have "align (subCost_rec cls) (bases cls X) (bases cls Y)
        \<le> INSERTION_COST * int (length (bases cls X) + length (bases cls Y))"
    by (rule align_upper)
  moreover have "length (bases cls X) + length (bases cls Y) \<le> length X + length Y"
    by (simp add: bases_def add_mono)
  ultimately show ?thesis using l
    by (simp add: rec_value_def xy INSERTION_COST_def)
qed

lemma engine_value_unordered:
  assumes "\<And>x y. isSameBase cls x y = isSameBase cls y x"
  shows "engine_value cls A B = align (subCost_iter cls) (bases cls A) (bases cls B)"
proof (cases "length B \<le> length A")
  case True
  then show ?thesis by (simp add: engine_value_def order_sequences_def)
next
  case False
  have "align (subCost_iter cls) (bases cls B) (bases cls A) = align (subCost_iter cls) (bases cls A) (bases cls B)"
    by (rule align_sym) (simp add: subCost_iter_def assms)
  then show ?thesis using False by (simp add: engine_value_def order_sequences_def)
qed

lemma rec_value_unordered:
  assumes "\<And>x y. isSameBase cls x y = isSameBase cls y x"
    and "\<And>x y. isSameBase cls x y \<Longrightarrow> isUnknownBase cls x = isUnknownBase cls y"
  shows "rec_value cls A B = align (subCost_rec cls) (bases cls A) (bases cls B)"
proof (cases "length B \<le> length A")
  case True
  then show ?thesis by (simp add: rec_value_def order_sequences_def)
next
  case False
  have "subCost_rec cls x y = subCost_rec cls y x" for x y
    using assms(1) [of x y] assms(2) [of x y]
    by (auto simp: subCost_rec_def SUBSTITUTION_COST_def SUBSTITUTION_UNKNOWN_COST_def)
  then have "align (subCost_rec cls) (bases cls B) (bases cls A) = align (subCost_rec cls) (bases cls A) (bases cls B)"
    by (intro align_sym)
  then show ?thesis using False by (simp add: rec_value_def order_sequences_def)
qed

lemma bases_delete_nonbase:
  "\<not> isBase cls ch \<Longrightarrow> bases cls (pre @ ch # post) = bases cls (pre @ post)"
  by (simp add: bases_def)

lemma nonbase_free_Rec_iteratif:
  assumes "\<And>x y. isSameBase cls x y = isSameBase cls y x"
    and "\<And>x y. isSameBase cls x y \<Longrightarrow> isUnknownBase cls x = isUnknownBase cls y"
    and "\<not> isBase cls ch"
  shows "EditDistance_NW_Rec cls (pre @ ch # post) B = EditDistance_NW_Rec cls (pre @ post) B"
    and "EditDistance_NW_Rec cls A (pre @ ch # post) = EditDistance_NW_Rec cls A (pre @ post)"
    and "EditDistance_NW_iteratif cls (pre @ ch # post) B = EditDistance_NW_iteratif cls (pre @ post) B"
    and "EditDistance_NW_iteratif cls A (pre @ ch # post) = EditDistance_NW_iteratif cls A (pre @ post)"
  by (simp_all add: Rec_value iteratif_value rec_value_unordered [OF assms(1,2)]
        engine_value_unordered [OF assms(1)] bases_delete_nonbase [OF assms(3)])

lemma cache_aware_budget:
  assumes "40 \<le> sint Z"
  shows "EditDistance_NW_cache_aware cls A B Z = Some (Inr (EditDistance_NW_iteratif cls A B))"
proof -
  have "nb_case_of Z = sint Z div 40" using assms by (intro nb_case_of_nonneg) simp
  then have "1 \<le> nb_case_of Z" using assms by simp
  then show ?thesis by (simp add: cache_aware_value iteratif_value)
qed

lemma cache_aware_small_budget:
  assumes "0 \<le> sint Z" "sint Z < 40" "A \<noteq> []" "B \<noteq> []"
  shows "EditDistance_NW_cache_aware cls A B Z = None"
proof -
  have "nb_case_of Z = sint Z div 40" using assms by (intro nb_case_of_nonneg) simp
  then have "nb_case_of Z = 0" using assms by simp
  then show ?thesis using assms(3,4) by (rule cache_aware_diverges)
qed

text \<open>
  Where the engines return a value, the four values are the same as soon as no unknown
  base of \<open>X\<close> is found the same as a base of \<open>Y\<close>.
\<close>

lemma engines_agree:
  assumes "order_sequences A B = (X, Y)"
    and "\<And>x y. x \<in> set X \<Longrightarrow> y \<in> set Y \<Longrightarrow> isUnknownBase cls x \<Longrightarrow> \<not> isSameBase cls x y"
  shows "EditDistance_NW_Rec cls A B = Inr (EditDistance_NW_iteratif cls A B)"
    and "1 \<le> nb_case_of Z \<Longrightarrow>
           EditDistance_NW_cache_aware cls A B Z = Some (Inr (EditDistance_NW_iteratif cls A B))"
    and "int (length Y) \<le> seuil \<Longrightarrow>
           EditDistance_NW_cache_oblivious cls A B seuil = Some (Inr (EditDistance_NW_iteratif cls A B))"
proof -
  have "align (subCost_rec cls) (bases cls X) (bases cls Y)
          = align (subCost_iter cls) (bases cls X) (bases cls Y)"
  proof (rule align_cong)
    fix x y assume "x \<in> set (bases cls X)" "y \<in> set (bases cls Y)"
    then have "isUnknownBase cls x \<Longrightarrow> \<not> isSameBase cls x y"
      using assms(2) [of x y] by (simp add: set_bases)
    then show "subCost_rec cls x y = subCost_iter cls x y"
      by (auto simp: subCost_rec_def subCost_iter_def c_bool_def
            SUBSTITUTION_COST_def SUBSTITUTION_UNKNOWN_COST_def)
  qed
  then have "rec_value cls A B = engine_value cls A B"
    by (simp add: rec_value_def engine_value_def assms(1))
  then show "EditDistance_NW_Rec cls A B = Inr (EditDistance_NW_iteratif cls A B)"
    by (simp add: Rec_value iteratif_value)
  show "1 \<le> nb_case_of Z \<Longrightarrow>
           EditDistance_NW_cache_aware cls A B Z = Some (Inr (EditDistance_NW_iteratif cls A B))"
    by (simp add: cache_aware_value iteratif_value)
  have "length Y = min (length A) (length B)"
    using assms(1) by (auto simp: order_sequences_def split: if_splits)
  then show "int (length Y) \<le> seuil \<Longrightarrow>
           EditDistance_NW_cache_oblivious cls A B seuil = Some (Inr (EditDistance_NW_iteratif cls A B))"
    by (simp add: cache_oblivious_value iteratif_value)
qed

section \<open>The classifier of the specification\<close>

lemma run_no_reports:
  assumes "map_option (map_sum id (\<lambda>v. (v, []))) e = Some (Inr r)"
  shows "snd r = []"
proof (cases e)
  case None
  with assms show ?thesis by simp
next
  case (Some z)
  with assms show ?thesis by (cases z) auto
qed

lemma std_same_sym: "\<forall>x y. isSameBase std_classifier x y = isSameBase std_classifier y x"
  by (auto simp: std_classifier_def)

lemma std_same_unknown:
  "\<forall>x y. isSameBase std_classifier x y \<longrightarrow> isUnknownBase std_classifier x = isUnknownBase std_classifier y"
  by (simp add: std_classifier_def)

lemma std_known_unknown:
  "\<forall>x y. isUnknownBase std_classifier y \<and> \<not> isUnknownBase std_classifier x \<longrightarrow> \<not> isSameBase std_classifier x y"
  by (auto simp: std_classifier_def)

section \<open>The reports of the memoized engine\<close>

lemma phi_rec_nonneg: "0 \<le> phi cls (subCost_rec cls) X Y i j"
  unfolding phi_align
  by (rule align_nonneg)
     (simp add: subCost_rec_def SUBSTITUTION_COST_def SUBSTITUTION_UNKNOWN_COST_def)

lemma successors_in_range:
  assumes "i \<le> length X" "j \<le> length Y" "(a, b) \<in> set (successors cls X Y (i, j))"
  shows "a \<le> length X \<and> b \<le> length Y \<and> i \<le> a \<and> j \<le> b \<and> (i < a \<or> j < b)"
  using assms by (auto simp: successors_def split: if_splits)

lemma reached_in_range: "reached cls X Y d \<Longrightarrow> fst d \<le> length X \<and> snd d \<le> length Y"
proof (induction rule: reached.induct)
  case reached_start
  show ?case by simp
next
  case (reached_step d d')
  then show ?case using successors_in_range [of "fst d" X "snd d" Y "fst d'" "snd d'" cls] by simp
qed

lemma finite_skipped_done: "finite (skipped_done cls c s)"
proof -
  have "skipped_done cls c s \<subseteq> {..<length (ctx_X c)} \<times> {..<length (ctx_Y c)}"
    by (auto simp: skipped_done_def skipped_def)
  then show ?thesis by (rule finite_subset) simp
qed

lemma finite_reached_skipped: "finite {d. reached cls X Y d \<and> skipped cls X Y d}"
proof -
  have "{d. reached cls X Y d \<and> skipped cls X Y d} \<subseteq> {..<length X} \<times> {..<length Y}"
    by (auto simp: skipped_def)
  then show ?thesis by (rule finite_subset) simp
qed

lemma keeps_refl: "keeps c i j s s"
  by (simp add: keeps_def)

lemma keeps_trans: "keeps c i j s s1 \<Longrightarrow> keeps c i j s1 s2 \<Longrightarrow> keeps c i j s s2"
  unfolding keeps_def by metis

lemma keeps_weaken: "keeps c i' j' s s' \<Longrightarrow> i \<le> i' \<Longrightarrow> j \<le> j' \<Longrightarrow> keeps c i j s s'"
  unfolding keeps_def by (meson le_trans less_le_trans)

lemma balanced_refl: "balanced cls c s s"
  by (simp add: balanced_def)

lemma balanced_trans:
  assumes "balanced cls c s s1" "balanced cls c s1 s2"
  shows "balanced cls c s s2"
proof -
  let ?K = "\<lambda>s. image_mset (skipped_char cls (ctx_X c) (ctx_Y c)) (mset_set (skipped_done cls c s))"
  from assms have a: "mset (reported s1) + ?K s = mset (reported s) + ?K s1"
    and b: "mset (reported s2) + ?K s1 = mset (reported s1) + ?K s2"
    by (simp_all add: balanced_def)
  have "(mset (reported s2) + ?K s) + (mset (reported s1) + ?K s1)
          = (mset (reported s2) + ?K s1) + (mset (reported s1) + ?K s)"
    by (simp add: ac_simps)
  also have "\<dots> = (mset (reported s1) + ?K s2) + (mset (reported s) + ?K s1)"
    by (simp only: a b)
  also have "\<dots> = (mset (reported s) + ?K s2) + (mset (reported s1) + ?K s1)"
    by (simp add: ac_simps)
  finally have "mset (reported s2) + ?K s = mset (reported s) + ?K s2" by simp
  then show ?thesis by (simp add: balanced_def)
qed

lemma memo_store_nth:
  assumes "memo_ok cls c s1" "i \<le> ctx_M c" "j \<le> ctx_N c" "a \<le> ctx_M c" "b \<le> ctx_N c"
  shows "memo (snd (memo_store i j res s1)) ! a ! b = (if a = i \<and> b = j then res else memo s1 ! a ! b)"
  using assms unfolding memo_ok_def memo_store_def by (auto simp: nth_list_update)

lemma ManageBaseError_simps:
  "memo (ManageBaseError ch s) = memo s"
  "reported (ManageBaseError ch s) = reported s @ [ch]"
  "computed (ManageBaseError ch s) = computed s"
  "trace_ok cls c (ManageBaseError ch s) = trace_ok cls c s"
  "skipped_done cls c (ManageBaseError ch s) = skipped_done cls c s"
  "keeps c i j s (ManageBaseError ch s)"
  by (simp_all add: ManageBaseError_def computed_def trace_ok_def skipped_done_def keeps_def)

lemma store_post:
  assumes wf: "ctx_M c = length (ctx_X c)" "ctx_N c = length (ctx_Y c)"
    and ok: "memo_ok cls c s1"
    and ij: "i \<le> ctx_M c" "j \<le> ctx_N c"
    and res: "res \<noteq> NOT_YET_COMPUTED"
    and fresh: "memo s1 ! i ! j = NOT_YET_COMPUTED"
    and tr: "trace_ok cls c s1"
    and re: "reached cls (ctx_X c) (ctx_Y c) (i, j)"
    and su: "\<forall>d\<in>set (successors cls (ctx_X c) (ctx_Y c) (i, j)). computed s1 d"
    and s': "s' = snd (memo_store i j res s1)"
  shows "trace_ok cls c s'" and "computed s' (i, j)" and "keeps c i j s1 s'"
    and "skipped_done cls c s' =
           (if skipped cls (ctx_X c) (ctx_Y c) (i, j) then insert (i, j) (skipped_done cls c s1)
            else skipped_done cls c s1)"
    and "(i, j) \<notin> skipped_done cls c s1"
    and "reported s' = reported s1"
proof -
  have nth: "\<And>a b. a \<le> ctx_M c \<Longrightarrow> b \<le> ctx_N c \<Longrightarrow>
      memo s' ! a ! b = (if a = i \<and> b = j then res else memo s1 ! a ! b)"
    unfolding s' by (rule memo_store_nth [OF ok ij])
  have comp: "\<And>a b. a \<le> ctx_M c \<Longrightarrow> b \<le> ctx_N c \<Longrightarrow>
      computed s' (a, b) = ((a = i \<and> b = j) \<or> computed s1 (a, b))"
    using nth res fresh by (auto simp: computed_def)
  show c1: "computed s' (i, j)" using comp [OF ij] by simp
  show "keeps c i j s1 s'" unfolding keeps_def using comp nth by auto
  show "reported s' = reported s1" by (simp add: s' memo_store_def)
  show "(i, j) \<notin> skipped_done cls c s1" using fresh by (simp add: skipped_done_def computed_def)
  show "trace_ok cls c s'"
    unfolding trace_ok_def
  proof (intro allI impI)
    fix a b assume ab: "a \<le> ctx_M c" "b \<le> ctx_N c" and cab: "computed s' (a, b)"
    have sub: "\<forall>d\<in>set (successors cls (ctx_X c) (ctx_Y c) (a, b)). computed s' d"
      if h: "\<forall>d\<in>set (successors cls (ctx_X c) (ctx_Y c) (a, b)). computed s1 d"
    proof
      fix d assume d: "d \<in> set (successors cls (ctx_X c) (ctx_Y c) (a, b))"
      obtain p q where pq: "d = (p, q)" by (cases d)
      from successors_in_range [of a "ctx_X c" b "ctx_Y c" p q cls] ab d pq wf
      have "p \<le> ctx_M c" "q \<le> ctx_N c" by simp_all
      then show "computed s' d" using comp [of p q] h d pq by simp
    qed
    show "reached cls (ctx_X c) (ctx_Y c) (a, b) \<and>
          (\<forall>d\<in>set (successors cls (ctx_X c) (ctx_Y c) (a, b)). computed s' d)"
    proof (cases "a = i \<and> b = j")
      case True
      then show ?thesis using re su sub by simp
    next
      case False
      then have "computed s1 (a, b)" using comp [OF ab] cab by blast
      then show ?thesis using tr ab sub unfolding trace_ok_def by blast
    qed
  qed
  show "skipped_done cls c s' =
           (if skipped cls (ctx_X c) (ctx_Y c) (i, j) then insert (i, j) (skipped_done cls c s1)
            else skipped_done cls c s1)"
  proof -
    have "\<And>a b. skipped cls (ctx_X c) (ctx_Y c) (a, b) \<Longrightarrow> a \<le> ctx_M c \<and> b \<le> ctx_N c"
      using wf by (simp add: skipped_def)
    then have "\<And>a b. skipped cls (ctx_X c) (ctx_Y c) (a, b) \<Longrightarrow>
        computed s' (a, b) = ((a = i \<and> b = j) \<or> computed s1 (a, b))"
      using comp by blast
    then show ?thesis by (auto simp: skipped_done_def)
  qed
qed

lemma image_mset_insert_fresh:
  assumes "finite A" "x \<notin> A"
  shows "image_mset f (mset_set (insert x A)) = add_mset (f x) (image_mset f (mset_set A))"
  using assms by simp

lemma RecMemo_trace:
  assumes wf: "ctx_M c = length (ctx_X c)" "ctx_N c = length (ctx_Y c)"
  shows "(ctx_M c - i) + (ctx_N c - j) = k \<Longrightarrow> i \<le> ctx_M c \<Longrightarrow> j \<le> ctx_N c \<Longrightarrow>
         memo_ok cls c s \<Longrightarrow> trace_ok cls c s \<Longrightarrow> reached cls (ctx_X c) (ctx_Y c) (i, j) \<Longrightarrow>
         \<exists>v s'. EditDistance_NW_RecMemo cls c i j s = Inr (v, s') \<and>
              memo_ok cls c s' \<and> trace_ok cls c s' \<and> computed s' (i, j) \<and>
              keeps c i j s s' \<and> balanced cls c s s'"
proof (induction k arbitrary: i j s rule: less_induct)
  case (less k)
  let ?R = "EditDistance_NW_RecMemo cls c"
  let ?X = "ctx_X c" and ?Y = "ctx_Y c"
  let ?K = "\<lambda>s. image_mset (skipped_char cls ?X ?Y) (mset_set (skipped_done cls c s))"
  note ij = less.prems(2,3)
  note ok = less.prems(4)
  note tr = less.prems(5)
  note re = less.prems(6)
  have inr: "\<not> (ctx_M c < i \<or> ctx_N c < j)" using ij by simp
  show ?case
  proof (cases "memo s ! i ! j \<noteq> NOT_YET_COMPUTED")
    case True
    then have "?R i j s = Inr (memo s ! i ! j, s)" using inr
      by (subst EditDistance_NW_RecMemo.simps) simp
    moreover have "computed s (i, j)" using True by (simp add: computed_def)
    ultimately show ?thesis using ok tr keeps_refl balanced_refl by blast
  next
    case False
    then have nyc: "memo s ! i ! j = NOT_YET_COMPUTED" by simp
    have call: "\<exists>v t'. ?R a b t = Inr (v, t') \<and> memo_ok cls c t' \<and> trace_ok cls c t' \<and>
                  computed t' (a, b) \<and> keeps c i j t t' \<and>
                  memo t' ! i ! j = NOT_YET_COMPUTED \<and> balanced cls c t t'"
      if su: "(a, b) \<in> set (successors cls ?X ?Y (i, j))" and okt: "memo_ok cls c t"
        and trt: "trace_ok cls c t" and nt: "memo t ! i ! j = NOT_YET_COMPUTED" for a b t
    proof -
      from successors_in_range [of i ?X j ?Y a b cls] ij su wf
      have r: "a \<le> ctx_M c" "b \<le> ctx_N c" "i \<le> a" "j \<le> b" "i < a \<or> j < b" by simp_all
      have m: "(ctx_M c - a) + (ctx_N c - b) < k" using less.prems(1) r ij by arith
      have rab: "reached cls ?X ?Y (a, b)" using re su by (rule reached_step)
      from less.IH [OF m refl r(1,2) okt trt rab] obtain v t' where
        p: "?R a b t = Inr (v, t')" "memo_ok cls c t'" "trace_ok cls c t'" "computed t' (a, b)"
           "keeps c a b t t'" "balanced cls c t t'" by blast
      have "memo t' ! i ! j = memo t ! i ! j" using p(5) r(5) ij unfolding keeps_def by blast
      moreover have "keeps c i j t t'" using p(5) r(3,4) by (rule keeps_weaken)
      ultimately show ?thesis using p nt by auto
    qed
    have mono: "computed t' d" if "keeps c i j t t'" "computed t d"
      "d \<in> set (successors cls ?X ?Y (i, j))" for t t' d
    proof -
      obtain p q where pq: "d = (p, q)" by (cases d)
      from successors_in_range [of i ?X j ?Y p q cls] ij that(3) pq wf
      have "p \<le> ctx_M c" "q \<le> ctx_N c" by simp_all
      then show ?thesis using that(1,2) pq unfolding keeps_def by blast
    qed
    have mid: "\<exists>res sk. ?R i j s = Inr (memo_store i j res sk) \<and> memo_ok cls c sk \<and>
        trace_ok cls c sk \<and> keeps c i j s sk \<and> memo sk ! i ! j = NOT_YET_COMPUTED \<and>
        (\<forall>d\<in>set (successors cls ?X ?Y (i, j)). computed sk d) \<and>
        mset (reported sk) + ?K s =
          mset (reported s) + (if skipped cls ?X ?Y (i, j) then {#skipped_char cls ?X ?Y (i, j)#} else {#})
            + ?K sk"
    proof (cases "i = ctx_M c")
      case iM: True
      have nsk: "\<not> skipped cls ?X ?Y (i, j)" using iM wf by (simp add: skipped_def)
      show ?thesis
      proof (cases "j = ctx_N c")
        case jN: True
        have "?R i j s = Inr (memo_store i j 0 s)" using inr nyc iM jN
          by (subst EditDistance_NW_RecMemo.simps) simp
        moreover have "set (successors cls ?X ?Y (i, j)) = {}" using iM jN wf by (simp add: successors_def)
        ultimately show ?thesis using ok tr nyc nsk keeps_refl [of c i j s] by auto
      next
        case jN: False
        have su: "successors cls ?X ?Y (i, j) = [(i, j + 1)]" using iM jN wf by (simp add: successors_def)
        from call [of i "j + 1" s] su ok tr nyc obtain v t' where
          p: "?R i (j + 1) s = Inr (v, t')" "memo_ok cls c t'" "trace_ok cls c t'"
             "computed t' (i, j + 1)" "keeps c i j s t'" "memo t' ! i ! j = NOT_YET_COMPUTED"
             "balanced cls c s t'" by auto
        have "\<exists>res. ?R i j s = Inr (memo_store i j res t')" using inr nyc iM jN p(1)
          by (subst EditDistance_NW_RecMemo.simps) (auto simp: Let_def)
        moreover have "mset (reported t') + ?K s = mset (reported s) + ?K t'"
          using p(7) by (simp add: balanced_def)
        ultimately show ?thesis using p nsk su by auto
      qed
    next
      case iM: False
      then have ilt: "i < ctx_M c" using ij by simp
      have cx: "c_string_at ?X i = ?X ! i" using ilt wf by (simp add: c_string_at_def)
      show ?thesis
      proof (cases "j = ctx_N c")
        case jN: True
        have nsk: "\<not> skipped cls ?X ?Y (i, j)" using jN wf by (simp add: skipped_def)
        have su: "successors cls ?X ?Y (i, j) = [(i + 1, j)]" using iM jN wf by (simp add: successors_def)
        from call [of "i + 1" j s] su ok tr nyc obtain v t' where
          p: "?R (i + 1) j s = Inr (v, t')" "memo_ok cls c t'" "trace_ok cls c t'"
             "computed t' (i + 1, j)" "keeps c i j s t'" "memo t' ! i ! j = NOT_YET_COMPUTED"
             "balanced cls c s t'" by auto
        have "\<exists>res. ?R i j s = Inr (memo_store i j res t')" using inr nyc iM jN p(1)
          by (subst EditDistance_NW_RecMemo.simps) (auto simp: Let_def)
        moreover have "mset (reported t') + ?K s = mset (reported s) + ?K t'"
          using p(7) by (simp add: balanced_def)
        ultimately show ?thesis using p nsk su by auto
      next
        case jN: False
        then have jlt: "j < ctx_N c" using ij by simp
        have cy: "c_string_at ?Y j = ?Y ! j" using jlt wf by (simp add: c_string_at_def)
        show ?thesis
        proof (cases "isBase cls (?X ! i)")
          case xb: False
          let ?t = "ManageBaseError (?X ! i) s"
          have sk: "skipped cls ?X ?Y (i, j)" "skipped_char cls ?X ?Y (i, j) = ?X ! i"
            using ilt jlt wf xb by (simp_all add: skipped_def skipped_char_def)
          have su: "successors cls ?X ?Y (i, j) = [(i + 1, j)]"
            using iM jN wf xb by (simp add: successors_def)
          have okt: "memo_ok cls c ?t" using ok by (simp add: memo_ok_def ManageBaseError_simps)
          have trt: "trace_ok cls c ?t" using tr by (simp add: ManageBaseError_simps)
          have nt: "memo ?t ! i ! j = NOT_YET_COMPUTED" using nyc by (simp add: ManageBaseError_simps)
          from call [of "i + 1" j ?t] su okt trt nt obtain v t' where
            p: "?R (i + 1) j ?t = Inr (v, t')" "memo_ok cls c t'" "trace_ok cls c t'"
               "computed t' (i + 1, j)" "keeps c i j ?t t'" "memo t' ! i ! j = NOT_YET_COMPUTED"
               "balanced cls c ?t t'" by auto
          have k: "keeps c i j s t'"
            using keeps_trans [OF ManageBaseError_simps(6) p(5)] .
          have "\<exists>res. ?R i j s = Inr (memo_store i j res t')" using inr nyc iM jN xb p(1)
            by (subst EditDistance_NW_RecMemo.simps) (auto simp: Let_def cx)
          moreover have "mset (reported t') + ?K s = mset (reported s) + {#?X ! i#} + ?K t'"
            using p(7) by (simp add: balanced_def ManageBaseError_simps)
          ultimately show ?thesis using p(2,3,4,6) k sk su by auto
        next
          case xb: True
          show ?thesis
          proof (cases "isBase cls (?Y ! j)")
            case yb: False
            let ?t = "ManageBaseError (?Y ! j) s"
            have sk: "skipped cls ?X ?Y (i, j)" "skipped_char cls ?X ?Y (i, j) = ?Y ! j"
              using ilt jlt wf xb yb by (simp_all add: skipped_def skipped_char_def)
            have su: "successors cls ?X ?Y (i, j) = [(i, j + 1)]"
              using iM jN wf xb yb by (simp add: successors_def)
            have okt: "memo_ok cls c ?t" using ok by (simp add: memo_ok_def ManageBaseError_simps)
            have trt: "trace_ok cls c ?t" using tr by (simp add: ManageBaseError_simps)
            have nt: "memo ?t ! i ! j = NOT_YET_COMPUTED" using nyc by (simp add: ManageBaseError_simps)
            from call [of i "j + 1" ?t] su okt trt nt obtain v t' where
              p: "?R i (j + 1) ?t = Inr (v, t')" "memo_ok cls c t'" "trace_ok cls c t'"
                 "computed t' (i, j + 1)" "keeps c i j ?t t'" "memo t' ! i ! j = NOT_YET_COMPUTED"
                 "balanced cls c ?t t'" by auto
            have k: "keeps c i j s t'"
              using keeps_trans [OF ManageBaseError_simps(6) p(5)] .
            have "\<exists>res. ?R i j s = Inr (memo_store i j res t')" using inr nyc iM jN xb yb p(1)
              by (subst EditDistance_NW_RecMemo.simps) (auto simp: Let_def cx cy)
            moreover have "mset (reported t') + ?K s = mset (reported s) + {#?Y ! j#} + ?K t'"
              using p(7) by (simp add: balanced_def ManageBaseError_simps)
            ultimately show ?thesis using p(2,3,4,6) k sk su by auto
          next
            case yb: True
            have nsk: "\<not> skipped cls ?X ?Y (i, j)" using xb yb by (simp add: skipped_def)
            have su: "successors cls ?X ?Y (i, j) = [(i + 1, j + 1), (i + 1, j), (i, j + 1)]"
              using iM jN wf xb yb by (simp add: successors_def)
            from call [of "i + 1" "j + 1" s] su ok tr nyc obtain v1 t1 where
              p1: "?R (i + 1) (j + 1) s = Inr (v1, t1)" "memo_ok cls c t1" "trace_ok cls c t1"
                 "computed t1 (i + 1, j + 1)" "keeps c i j s t1" "memo t1 ! i ! j = NOT_YET_COMPUTED"
                 "balanced cls c s t1" by auto
            from call [of "i + 1" j t1] su p1(2,3,6) obtain v2 t2 where
              p2: "?R (i + 1) j t1 = Inr (v2, t2)" "memo_ok cls c t2" "trace_ok cls c t2"
                 "computed t2 (i + 1, j)" "keeps c i j t1 t2" "memo t2 ! i ! j = NOT_YET_COMPUTED"
                 "balanced cls c t1 t2" by auto
            from call [of i "j + 1" t2] su p2(2,3,6) obtain v3 t3 where
              p3: "?R i (j + 1) t2 = Inr (v3, t3)" "memo_ok cls c t3" "trace_ok cls c t3"
                 "computed t3 (i, j + 1)" "keeps c i j t2 t3" "memo t3 ! i ! j = NOT_YET_COMPUTED"
                 "balanced cls c t2 t3" by auto
            have k: "keeps c i j s t3"
              using keeps_trans [OF keeps_trans [OF p1(5) p2(5)] p3(5)] .
            have b: "balanced cls c s t3"
              using balanced_trans [OF balanced_trans [OF p1(7) p2(7)] p3(7)] .
            have c1: "computed t3 (i + 1, j + 1)"
              using mono [OF p3(5) mono [OF p2(5) p1(4)]] su by simp
            have c2: "computed t3 (i + 1, j)" using mono [OF p3(5) p2(4)] su by simp
            have "\<exists>res. ?R i j s = Inr (memo_store i j res t3)" using inr nyc iM jN xb yb p1(1) p2(1) p3(1)
              by (subst EditDistance_NW_RecMemo.simps) (auto simp: Let_def cx cy)
            moreover have "mset (reported t3) + ?K s = mset (reported s) + ?K t3"
              using b by (simp add: balanced_def)
            ultimately show ?thesis using p3(2,3,4,6) k c1 c2 nsk su by auto
          qed
        qed
      qed
    qed
    then obtain res sk where
      m: "?R i j s = Inr (memo_store i j res sk)" "memo_ok cls c sk" "trace_ok cls c sk"
         "keeps c i j s sk" "memo sk ! i ! j = NOT_YET_COMPUTED"
         "\<forall>d\<in>set (successors cls ?X ?Y (i, j)). computed sk d"
         "mset (reported sk) + ?K s =
            mset (reported s) + (if skipped cls ?X ?Y (i, j) then {#skipped_char cls ?X ?Y (i, j)#} else {#})
              + ?K sk"
      by blast
    define s' where "s' = snd (memo_store i j res sk)"
    from RecMemo_correct [OF wf refl ij ok] obtain s'' where
      v: "?R i j s = Inr (phi cls (subCost_rec cls) ?X ?Y i j, s'')" and ok'': "memo_ok cls c s''"
      by blast
    from m(1) v have eq: "memo_store i j res sk = (phi cls (subCost_rec cls) ?X ?Y i j, s'')" by simp
    have res: "res = phi cls (subCost_rec cls) ?X ?Y i j" using eq by (simp add: memo_store_def)
    have s'': "s'' = s'" using eq by (simp add: s'_def)
    have rn: "res \<noteq> NOT_YET_COMPUTED"
      using phi_rec_nonneg [of cls ?X ?Y i j] res by (simp add: NOT_YET_COMPUTED_def)
    note sp = store_post [OF wf m(2) ij rn m(5) m(3) re m(6) s'_def]
    have k: "keeps c i j s s'" using keeps_trans [OF m(4) sp(3)] .
    have fin: "finite (skipped_done cls c sk)" by (rule finite_skipped_done)
    have "?K s' = (if skipped cls ?X ?Y (i, j) then {#skipped_char cls ?X ?Y (i, j)#} else {#}) + ?K sk"
      using sp(4,5) fin by simp
    then have "mset (reported s') + ?K s = mset (reported s) + ?K s'"
      using m(7) sp(6) by (simp add: ac_simps)
    then have b: "balanced cls c s s'" by (simp add: balanced_def)
    have "?R i j s = Inr (res, s')" using m(1) by (simp add: s'_def memo_store_def)
    then show ?thesis using ok'' s'' sp(1,2) k b by blast
  qed
qed

text \<open>
  The characters reported by a call of \<^verbatim>\<open>EditDistance_NW_Rec\<close> are, up to their order, the
  skipped characters of the reached cells at which a character is skipped, one for each
  cell.
\<close>

lemma Rec_run_reports:
  assumes xy: "order_sequences A B = (X, Y)"
  shows "\<exists>v log. EditDistance_NW_Rec_run cls A B = Inr (v, log) \<and>
           mset log = image_mset (skipped_char cls X Y)
                        (mset_set {d. reached cls X Y d \<and> skipped cls X Y d})"
proof -
  define c where "c = \<lparr> ctx_X = X, ctx_Y = Y, ctx_M = length X, ctx_N = length Y \<rparr>"
  define s0 where "s0 = \<lparr> memo = replicate (length X + 1) (replicate (length Y + 1) NOT_YET_COMPUTED),
                 reported = [] \<rparr>"
  have wf: "ctx_M c = length (ctx_X c)" "ctx_N c = length (ctx_Y c)" by (simp_all add: c_def)
  have cX: "ctx_X c = X" and cY: "ctx_Y c = Y" by (simp_all add: c_def)
  have ok: "memo_ok cls c s0" unfolding s0_def by (rule initial_memo_ok) (simp_all add: c_def)
  have nc: "\<not> computed s0 (i, j)" if "i \<le> length X" "j \<le> length Y" for i j
    using that by (simp add: computed_def s0_def less_Suc_eq_le del: replicate_Suc)
  have tr: "trace_ok cls c s0" using nc by (simp add: trace_ok_def c_def)
  have k0: "skipped_done cls c s0 = {}"
    using nc by (auto simp: skipped_done_def skipped_def c_def)
  from RecMemo_trace [OF wf refl _ _ ok tr, of 0 0] obtain v s' where
    r: "EditDistance_NW_RecMemo cls c 0 0 s0 = Inr (v, s')"
    and tr': "trace_ok cls c s'" and c0: "computed s' (0, 0)" and b: "balanced cls c s0 s'"
    by (auto simp: cX cY intro: reached_start)
  have all: "computed s' d" if "reached cls X Y d" for d
    using that
  proof (induction rule: reached.induct)
    case reached_start
    show ?case by (rule c0)
  next
    case (reached_step d d')
    obtain i j where d: "d = (i, j)" by (cases d)
    from reached_in_range [OF reached_step(1)] d have "i \<le> ctx_M c" "j \<le> ctx_N c"
      by (simp_all add: c_def)
    then show ?case using tr' reached_step(2,3) d unfolding trace_ok_def cX cY by blast
  qed
  have "skipped_done cls c s' = {d. reached cls X Y d \<and> skipped cls X Y d}"
  proof (intro set_eqI iffI)
    fix d assume d: "d \<in> skipped_done cls c s'"
    obtain i j where ij: "d = (i, j)" by (cases d)
    from d ij have "i \<le> ctx_M c" "j \<le> ctx_N c" "computed s' (i, j)" "skipped cls X Y (i, j)"
      by (simp_all add: skipped_done_def skipped_def c_def)
    then show "d \<in> {d. reached cls X Y d \<and> skipped cls X Y d}"
      using tr' ij unfolding trace_ok_def cX cY by blast
  next
    fix d assume "d \<in> {d. reached cls X Y d \<and> skipped cls X Y d}"
    then show "d \<in> skipped_done cls c s'" using all by (simp add: skipped_done_def cX cY)
  qed
  then have "mset (reported s') = image_mset (skipped_char cls X Y)
                        (mset_set {d. reached cls X Y d \<and> skipped cls X Y d})"
    using b k0 by (simp add: balanced_def s0_def cX cY)
  moreover have "EditDistance_NW_Rec_run cls A B =
      (case EditDistance_NW_RecMemo cls c 0 0 s0 of Inl e \<Rightarrow> Inl e | Inr (res, s) \<Rightarrow> Inr (res, reported s))"
    by (simp add: EditDistance_NW_Rec_run_def xy Let_def c_def s0_def)
  then have "EditDistance_NW_Rec_run cls A B = Inr (v, reported s')" unfolding r by simp
  ultimately show ?thesis by blast
qed

section \<open>The claims\<close>

text \<open>
  Claim C1 (the four entry points return the same distance): the code breaks it. On the
  pair of sequences \<open>N\<close>, \<open>N\<close> (the unknown base against itself) the memoized engine
  returns 1, the substitution cost of an unknown base documented in the header, while the
  three iterative engines return 0, because they take the cost of a substitution from
  \<^verbatim>\<open>isSameBase\<close> alone. On \<open>AC\<close>, \<open>AC\<close>, which holds no unknown base, the memoized
  engine returns 0 and the cache-oblivious engine with the threshold 1 reads out of
  bounds.
\<close>

theorem C1_engines_disagree:
  "EditDistance_NW_Rec std_classifier ''N'' ''N'' = Inr 1 \<and>
   EditDistance_NW_iteratif std_classifier ''N'' ''N'' = 0 \<and>
   EditDistance_NW_cache_aware std_classifier ''N'' ''N'' 40 = Some (Inr 0) \<and>
   EditDistance_NW_cache_oblivious std_classifier ''N'' ''N'' 1 = Some (Inr 0) \<and>
   EditDistance_NW_Rec std_classifier ''AC'' ''AC'' = Inr 0 \<and>
   EditDistance_NW_cache_oblivious std_classifier ''AC'' ''AC'' 1 = Some (Inl Out_Of_Bounds)"
  by code_simp

text \<open>
  Claim C2 (the cache-oblivious result does not depend on the threshold): the code breaks
  it. On \<open>AC\<close>, \<open>AC\<close> the threshold 2 evaluates the whole range at once and returns 0;
  the threshold 1 splits the range, and the second half reads \<^verbatim>\<open>tab[fin_seq]\<close> outside
  of \<^verbatim>\<open>tab\<close> (line 380).
\<close>

theorem C2_threshold_changes_outcome:
  "EditDistance_NW_cache_oblivious std_classifier ''AC'' ''AC'' 1 = Some (Inl Out_Of_Bounds) \<and>
   EditDistance_NW_cache_oblivious std_classifier ''AC'' ''AC'' 2 = Some (Inr 0)"
  by code_simp

text \<open>
  Claim C3 (the distance of a sequence to itself is 0 for every sequence, also with the
  unknown base): false as stated. The memoized engine charges the unknown-substitution
  cost whenever the character of \<open>X\<close> is the unknown base, so the distance of \<open>N\<close> to
  itself is 1, not 0.
\<close>

theorem C3_Rec_unknown_self_distance:
  "isBase std_classifier (CHR ''N'') \<and> isUnknownBase std_classifier (CHR ''N'') \<and>
   EditDistance_NW_Rec std_classifier ''N'' ''N'' = Inr 1 \<and>
   EditDistance_NW_Rec std_classifier ''N'' ''N'' \<noteq> Inr 0"
  by code_simp

text \<open>
  Claim C3, amended: for every sequence \<open>A\<close> without the unknown-base symbol (non-base
  characters allowed), whose bases the classifier finds the same as themselves, the
  distance of \<open>A\<close> to itself is 0: for the memoized and the iterative engine, for the
  cache-aware engine when the block width \<open>nb_case\<close> is at least 1, and for the
  cache-oblivious engine when the threshold is at least the length of \<open>A\<close>.
\<close>

theorem C3_self_distance_zero:
  assumes "\<forall>x\<in>set A. \<not> isUnknownBase cls x"
    and "\<forall>x\<in>set A. isBase cls x \<longrightarrow> isSameBase cls x x"
  shows "EditDistance_NW_Rec cls A A = Inr 0 \<and>
         EditDistance_NW_iteratif cls A A = 0 \<and>
         (1 \<le> nb_case_of Z \<longrightarrow> EditDistance_NW_cache_aware cls A A Z = Some (Inr 0)) \<and>
         (int (length A) \<le> seuil \<longrightarrow> EditDistance_NW_cache_oblivious cls A A seuil = Some (Inr 0))"
proof -
  have o: "order_sequences A A = (A, A)" by (simp add: order_sequences_def)
  have "align (subCost_rec cls) (bases cls A) (bases cls A) = 0"
  proof (rule align_self)
    fix x assume "x \<in> set (bases cls A)"
    then show "subCost_rec cls x x = 0" using assms by (simp add: set_bases subCost_rec_def)
  next
    fix x y show "0 \<le> subCost_rec cls x y"
      by (simp add: subCost_rec_def SUBSTITUTION_COST_def SUBSTITUTION_UNKNOWN_COST_def)
  qed
  then have r: "rec_value cls A A = 0" by (simp add: rec_value_def o)
  have "align (subCost_iter cls) (bases cls A) (bases cls A) = 0"
  proof (rule align_self)
    fix x assume "x \<in> set (bases cls A)"
    then show "subCost_iter cls x x = 0" using assms by (simp add: set_bases subCost_iter_def c_bool_def)
  next
    fix x y show "0 \<le> subCost_iter cls x y" by (simp add: subCost_iter_def c_bool_def)
  qed
  then have e: "engine_value cls A A = 0" by (simp add: engine_value_def o)
  show ?thesis
    using r e by (simp add: Rec_value iteratif_value cache_aware_value cache_oblivious_value)
qed

text \<open>
  Witness for C3, amended: the sequence \<open>AC-GT\<close> with the classifier of the
  specification, a budget of 80 bytes and the threshold 5. The two hypotheses on the
  characters of the sequence are discharged in the proof.
\<close>

theorem C3_self_distance_zero_witness:
  "EditDistance_NW_Rec std_classifier ''AC-GT'' ''AC-GT'' = Inr 0 \<and>
   EditDistance_NW_iteratif std_classifier ''AC-GT'' ''AC-GT'' = 0 \<and>
   1 \<le> nb_case_of 80 \<and>
   EditDistance_NW_cache_aware std_classifier ''AC-GT'' ''AC-GT'' 80 = Some (Inr 0) \<and>
   int (length ''AC-GT'') \<le> 5 \<and>
   EditDistance_NW_cache_oblivious std_classifier ''AC-GT'' ''AC-GT'' 5 = Some (Inr 0)"
proof -
  have h1: "\<forall>x\<in>set ''AC-GT''. \<not> isUnknownBase std_classifier x" by (simp add: std_classifier_def)
  have h2: "\<forall>x\<in>set ''AC-GT''. isBase std_classifier x \<longrightarrow> isSameBase std_classifier x x"
    by (simp add: std_classifier_def)
  have h3: "1 \<le> nb_case_of 80" by (simp add: nb_case_of_def)
  have h4: "int (length ''AC-GT'') \<le> 5" by simp
  from C3_self_distance_zero [OF h1 h2, of 80 5] h3 h4 show ?thesis by blast
qed

text \<open>
  Claim C4: \<^verbatim>\<open>EditDistance_NW_Rec\<close> returns \<open>phi(0, 0)\<close> of the recurrence of section 4.1
  over the ordered pair, \<open>X\<close> the longer sequence and \<open>Y\<close> the shorter one. The code
  tests the unknown base on the character of \<open>X\<close> only; as the two substitution costs of
  the header are both 1, its cost is that of the specification for a classifier that never
  finds a known base the same as an unknown one.
\<close>

theorem C4_Rec_is_phi:
  assumes "\<forall>x y. isUnknownBase cls y \<and> \<not> isUnknownBase cls x \<longrightarrow> \<not> isSameBase cls x y"
    and "order_sequences A B = (X, Y)"
  shows "EditDistance_NW_Rec cls A B = Inr (phi_spec cls X Y 0 0) \<and> length Y \<le> length X"
proof -
  have "subCost_rec cls x y = subCost_spec cls x y" for x y
    using assms(1)
    by (auto simp: subCost_rec_def subCost_spec_def SUBSTITUTION_COST_def SUBSTITUTION_UNKNOWN_COST_def)
  then have "align (subCost_rec cls) (bases cls X) (bases cls Y)
               = align (subCost_spec cls) (bases cls X) (bases cls Y)"
    by (intro align_cong)
  then have "phi_spec cls X Y 0 0 = rec_value cls A B"
    by (simp add: phi_spec_def rec_value_def assms(2) phi_align)
  moreover have "length Y \<le> length X"
    using assms(2) by (auto simp: order_sequences_def split: if_splits)
  ultimately show ?thesis by (simp add: Rec_value)
qed

text \<open>
  Witness for C4: the sequences \<open>AN-G\<close> and \<open>ACGTT\<close>, which the engine swaps, with the
  classifier of the specification, which satisfies the hypothesis (\<open>std_known_unknown\<close>).
\<close>

theorem C4_Rec_is_phi_witness:
  "order_sequences ''AN-G'' ''ACGTT'' = (''ACGTT'', ''AN-G'') \<and>
   EditDistance_NW_Rec std_classifier ''AN-G'' ''ACGTT'' = Inr (phi_spec std_classifier ''ACGTT'' ''AN-G'' 0 0) \<and>
   length ''AN-G'' \<le> length ''ACGTT''"
proof -
  have h2: "order_sequences ''AN-G'' ''ACGTT'' = (''ACGTT'', ''AN-G'')" by (simp add: order_sequences_def)
  from C4_Rec_is_phi [OF std_known_unknown h2] h2 show ?thesis by blast
qed

text \<open>
  The outcome of an engine does not depend on the order of the two sequences, for a
  classifier whose same-base test is symmetric and relates an unknown base to unknown
  bases only. The memoized and the iterative engine always return a value. For the
  cache-aware and the cache-oblivious engine the outcome is a value when the block width
  is at least 1, respectively when the threshold is at least the length of the shorter
  sequence; otherwise it is, in both orders, a call that does not return or the read out
  of bounds of line 380.
\<close>

lemma outcomes_order_independent:
  assumes "\<forall>x y. isSameBase cls x y = isSameBase cls y x"
    and "\<forall>x y. isSameBase cls x y \<longrightarrow> isUnknownBase cls x = isUnknownBase cls y"
  shows "(\<exists>v. EditDistance_NW_Rec cls A B = Inr v \<and> EditDistance_NW_Rec cls B A = Inr v) \<and>
         EditDistance_NW_iteratif cls A B = EditDistance_NW_iteratif cls B A \<and>
         EditDistance_NW_cache_aware cls A B Z = EditDistance_NW_cache_aware cls B A Z \<and>
         EditDistance_NW_cache_oblivious cls A B seuil = EditDistance_NW_cache_oblivious cls B A seuil \<and>
         (1 \<le> nb_case_of Z \<longrightarrow> (\<exists>v. EditDistance_NW_cache_aware cls A B Z = Some (Inr v))) \<and>
         (int (min (length A) (length B)) \<le> seuil \<longrightarrow>
            (\<exists>v. EditDistance_NW_cache_oblivious cls A B seuil = Some (Inr v)))"
proof -
  have s: "\<And>x y. isSameBase cls x y = isSameBase cls y x" using assms(1) by blast
  have u: "\<And>x y. isSameBase cls x y \<Longrightarrow> isUnknownBase cls x = isUnknownBase cls y" using assms(2) by blast
  have "rec_value cls A B = rec_value cls B A" by (rule rec_value_sym [OF s u])
  moreover have "engine_value cls A B = engine_value cls B A" by (rule engine_value_sym [OF s])
  ultimately show ?thesis
    using cache_aware_sym [of cls A B Z, OF s] cache_oblivious_sym [of cls A B seuil, OF s]
    by (simp add: Rec_value iteratif_value cache_aware_value cache_oblivious_value)
qed

text \<open>
  Claim C5 (each engine returns the same value on \<open>(A, B)\<close> and on \<open>(B, A)\<close>): the code
  breaks it for the two engines with a tuning parameter, which return no value in either
  order where their defects strike. On \<open>C-G\<close> and \<open>G--\<close>, whose distance is 2, the
  cache-oblivious engine with the threshold 1 reads \<^verbatim>\<open>tab[fin_seq]\<close> out of bounds in both
  orders, so that the number it returns is whatever that read yields; the cache-aware
  engine with a budget of 8 bytes does not return in either order.
\<close>

theorem C5_no_value_in_either_order:
  "EditDistance_NW_cache_oblivious std_classifier ''C-G'' ''G--'' 1 = Some (Inl Out_Of_Bounds) \<and>
   EditDistance_NW_cache_oblivious std_classifier ''G--'' ''C-G'' 1 = Some (Inl Out_Of_Bounds) \<and>
   EditDistance_NW_cache_aware std_classifier ''C-G'' ''G--'' 8 = None \<and>
   EditDistance_NW_cache_aware std_classifier ''G--'' ''C-G'' 8 = None \<and>
   EditDistance_NW_Rec std_classifier ''C-G'' ''G--'' = Inr 2 \<and>
   EditDistance_NW_Rec std_classifier ''G--'' ''C-G'' = Inr 2 \<and>
   EditDistance_NW_iteratif std_classifier ''C-G'' ''G--'' = 2 \<and>
   EditDistance_NW_iteratif std_classifier ''G--'' ''C-G'' = 2"
proof (intro conjI)
  show "EditDistance_NW_cache_oblivious std_classifier ''C-G'' ''G--'' 1 = Some (Inl Out_Of_Bounds)"
    by code_simp
  show "EditDistance_NW_cache_oblivious std_classifier ''G--'' ''C-G'' 1 = Some (Inl Out_Of_Bounds)"
    by code_simp
  show "EditDistance_NW_cache_aware std_classifier ''C-G'' ''G--'' 8 = None"
    by (rule cache_aware_diverges) (simp_all add: nb_case_of_def)
  show "EditDistance_NW_cache_aware std_classifier ''G--'' ''C-G'' 8 = None"
    by (rule cache_aware_diverges) (simp_all add: nb_case_of_def)
  show "EditDistance_NW_Rec std_classifier ''C-G'' ''G--'' = Inr 2" by code_simp
  show "EditDistance_NW_Rec std_classifier ''G--'' ''C-G'' = Inr 2" by code_simp
  show "EditDistance_NW_iteratif std_classifier ''C-G'' ''G--'' = 2" by code_simp
  show "EditDistance_NW_iteratif std_classifier ''G--'' ''C-G'' = 2" by code_simp
qed

text \<open>
  Claim C6 (the cache-aware result does not depend on the budget): the code breaks it.
  With a budget of 8 bytes the block width \<^verbatim>\<open>nb_case\<close> is 0, the loop of line 266 never
  decreases \<open>N\<close> and the call does not return; with 80 bytes it returns 0.
\<close>

theorem C6_small_budget_diverges:
  "EditDistance_NW_cache_aware std_classifier ''A'' ''A'' 8 = None \<and>
   EditDistance_NW_cache_aware std_classifier ''A'' ''A'' 80 = Some (Inr 0)"
proof
  show "EditDistance_NW_cache_aware std_classifier ''A'' ''A'' 8 = None"
    by (rule cache_aware_diverges) (simp_all add: nb_case_of_def)
  show "EditDistance_NW_cache_aware std_classifier ''A'' ''A'' 80 = Some (Inr 0)"
    by code_simp
qed

text \<open>
  Claim C7 (every call terminates, for every value of the tuning parameter): the code
  breaks it. The cache-aware engine does not return for a budget of 39 bytes, and the
  cache-oblivious engine does not return for the threshold 0.
\<close>

theorem C7_not_terminating:
  "EditDistance_NW_cache_aware std_classifier ''ACGT'' ''AG'' 39 = None \<and>
   EditDistance_NW_cache_oblivious std_classifier ''ACGT'' ''AG'' 0 = None"
proof
  show "EditDistance_NW_cache_aware std_classifier ''ACGT'' ''AG'' 39 = None"
    by (rule cache_aware_diverges) (simp_all add: nb_case_of_def)
  show "EditDistance_NW_cache_oblivious std_classifier ''ACGT'' ''AG'' 0 = None"
    by (rule cache_oblivious_diverges) simp_all
qed

text \<open>
  Claim C8 (deleting a non-base character leaves the distance unchanged, for every
  engine): the code breaks it for the two engines with a tuning parameter. With the
  threshold 1 the cache-oblivious engine reads out of bounds on \<open>AC\<close>, \<open>A-\<close> and returns 2
  on \<open>AC\<close>, \<open>A\<close>; with the budget 0 the cache-aware engine does not return on \<open>A\<close>,
  \<open>-\<close> and returns 2 on \<open>A\<close> and the empty sequence. For the memoized and the iterative
  engine the property holds, see \<open>nonbase_free_Rec_iteratif\<close>.
\<close>

theorem C8_deletion_changes_outcome:
  "\<not> isBase std_classifier (CHR ''-'') \<and>
   EditDistance_NW_cache_oblivious std_classifier ''AC'' ''A-'' 1 = Some (Inl Out_Of_Bounds) \<and>
   EditDistance_NW_cache_oblivious std_classifier ''AC'' ''A'' 1 = Some (Inr 2) \<and>
   EditDistance_NW_cache_aware std_classifier ''A'' ''-'' 0 = None \<and>
   EditDistance_NW_cache_aware std_classifier ''A'' '''' 0 = Some (Inr 2)"
proof (intro conjI)
  show "\<not> isBase std_classifier (CHR ''-'')" by (simp add: std_classifier_def)
  show "EditDistance_NW_cache_oblivious std_classifier ''AC'' ''A-'' 1 = Some (Inl Out_Of_Bounds)"
    by code_simp
  show "EditDistance_NW_cache_oblivious std_classifier ''AC'' ''A'' 1 = Some (Inr 2)"
    by code_simp
  show "EditDistance_NW_cache_aware std_classifier ''A'' ''-'' 0 = None"
    by (rule cache_aware_diverges) (simp_all add: nb_case_of_def)
  show "EditDistance_NW_cache_aware std_classifier ''A'' '''' 0 = Some (Inr 2)"
    by code_simp
qed

text \<open>
  Claim C9 (every engine reports every non-base character it meets to
  \<^verbatim>\<open>ManageBaseError\<close>): false as stated. The iterative engine meets the character \<open>-\<close>
  of \<open>A-C\<close> and reports nothing, and the memoized engine reports nothing for a non-base
  character met when the other sequence is exhausted.
\<close>

theorem C9_iteratif_reports_nothing:
  "CHR ''-'' \<in> set ''A-C'' \<and> \<not> isBase std_classifier (CHR ''-'') \<and>
   CHR ''-'' \<notin> set (snd (EditDistance_NW_iteratif_run std_classifier ''A-C'' ''AC'')) \<and>
   EditDistance_NW_Rec_run std_classifier ''-'' '''' = Inr (0, [])"
  by code_simp

text \<open>
  Claim C9, amended: \<^verbatim>\<open>EditDistance_NW_Rec\<close> reports to \<^verbatim>\<open>ManageBaseError\<close>, once for
  each interior cell \<open>(i, j)\<close> (with \<open>i < M\<close> and \<open>j < N\<close>) that its evaluation reaches and
  at which a character is skipped, the character skipped there: \<open>X[i]\<close> if it is a non-base
  character, else \<open>Y[j]\<close> if that is one. It reports nothing else: every report is a
  non-base character of an input, and non-base characters met on the boundary cells
  (\<open>i = M\<close> or \<open>j = N\<close>) are not reported. The three other engines report nothing.
\<close>

theorem C9_reports:
  assumes "order_sequences A B = (X, Y)"
  shows "(\<exists>v log. EditDistance_NW_Rec_run cls A B = Inr (v, log) \<and>
            mset log = image_mset (skipped_char cls X Y)
                         (mset_set {d. reached cls X Y d \<and> skipped cls X Y d}) \<and>
            (\<forall>ch\<in>set log. \<not> isBase cls ch \<and> (ch \<in> set A \<or> ch \<in> set B))) \<and>
         snd (EditDistance_NW_iteratif_run cls A B) = [] \<and>
         (\<forall>r. EditDistance_NW_cache_aware_run cls A B Z = Some (Inr r) \<longrightarrow> snd r = []) \<and>
         (\<forall>r. EditDistance_NW_cache_oblivious_run cls A B seuil = Some (Inr r) \<longrightarrow> snd r = [])"
proof -
  from Rec_run_reports [OF assms] obtain v log where
    r: "EditDistance_NW_Rec_run cls A B = Inr (v, log)"
    and m: "mset log = image_mset (skipped_char cls X Y)
                         (mset_set {d. reached cls X Y d \<and> skipped cls X Y d})" by blast
  from Rec_run_ordered [OF assms] obtain log' where
    r': "EditDistance_NW_Rec_run cls A B = Inr (phi cls (subCost_rec cls) X Y 0 0, log')"
    and l: "\<forall>ch\<in>set log'. \<not> isBase cls ch \<and> (ch \<in> set X \<or> ch \<in> set Y)" by blast
  have "log' = log" using r r' by simp
  moreover have "set X \<union> set Y = set A \<union> set B"
    using assms by (auto simp: order_sequences_def split: if_splits)
  ultimately have "\<forall>ch\<in>set log. \<not> isBase cls ch \<and> (ch \<in> set A \<or> ch \<in> set B)"
    using l by blast
  then have "\<exists>v log. EditDistance_NW_Rec_run cls A B = Inr (v, log) \<and>
            mset log = image_mset (skipped_char cls X Y)
                         (mset_set {d. reached cls X Y d \<and> skipped cls X Y d}) \<and>
            (\<forall>ch\<in>set log. \<not> isBase cls ch \<and> (ch \<in> set A \<or> ch \<in> set B))"
    using r m by blast
  moreover have "snd (EditDistance_NW_iteratif_run cls A B) = []"
    by (simp add: EditDistance_NW_iteratif_run_def)
  moreover have "\<forall>r. EditDistance_NW_cache_aware_run cls A B Z = Some (Inr r) \<longrightarrow> snd r = []"
    unfolding EditDistance_NW_cache_aware_run_def using run_no_reports by blast
  moreover have "\<forall>r. EditDistance_NW_cache_oblivious_run cls A B seuil = Some (Inr r) \<longrightarrow> snd r = []"
    unfolding EditDistance_NW_cache_oblivious_run_def using run_no_reports by blast
  ultimately show ?thesis by blast
qed

text \<open>
  Witness for C9, amended: \<open>A-C\<close> against \<open>AC\<close> with the classifier of the specification.
  The evaluation reaches the two interior cells \<open>(1, 0)\<close> and \<open>(1, 1)\<close> of the character
  \<open>-\<close>, and the engine reports it twice.
\<close>

theorem C9_reports_witness:
  "order_sequences ''A-C'' ''AC'' = (''A-C'', ''AC'') \<and>
   EditDistance_NW_Rec_run std_classifier ''A-C'' ''AC'' = Inr (0, ''--'') \<and>
   image_mset (skipped_char std_classifier ''A-C'' ''AC'')
     (mset_set {d. reached std_classifier ''A-C'' ''AC'' d \<and> skipped std_classifier ''A-C'' ''AC'' d})
     = {#CHR ''-'', CHR ''-''#} \<and>
   snd (EditDistance_NW_iteratif_run std_classifier ''A-C'' ''AC'') = [] \<and>
   EditDistance_NW_cache_aware_run std_classifier ''A-C'' ''AC'' 40 = Some (Inr (0, [])) \<and>
   EditDistance_NW_cache_oblivious_run std_classifier ''A-C'' ''AC'' 2 = Some (Inr (0, []))"
proof -
  have a: "order_sequences ''A-C'' ''AC'' = (''A-C'', ''AC'')" by (simp add: order_sequences_def)
  have e: "EditDistance_NW_Rec_run std_classifier ''A-C'' ''AC'' = Inr (0, ''--'')" by code_simp
  have c: "EditDistance_NW_cache_aware_run std_classifier ''A-C'' ''AC'' 40 = Some (Inr (0, []))"
    by code_simp
  have d: "EditDistance_NW_cache_oblivious_run std_classifier ''A-C'' ''AC'' 2 = Some (Inr (0, []))"
    by code_simp
  from C9_reports [OF a, of std_classifier 40 2] obtain v log where
    r: "EditDistance_NW_Rec_run std_classifier ''A-C'' ''AC'' = Inr (v, log)" and
    m: "mset log = image_mset (skipped_char std_classifier ''A-C'' ''AC'')
          (mset_set {d. reached std_classifier ''A-C'' ''AC'' d \<and> skipped std_classifier ''A-C'' ''AC'' d})" and
    i: "snd (EditDistance_NW_iteratif_run std_classifier ''A-C'' ''AC'') = []"
    by blast
  from r e have "log = ''--''" by simp
  with m have "image_mset (skipped_char std_classifier ''A-C'' ''AC'')
          (mset_set {d. reached std_classifier ''A-C'' ''AC'' d \<and> skipped std_classifier ''A-C'' ''AC'' d})
        = {#CHR ''-'', CHR ''-''#}" by simp
  then show ?thesis using a e i c d by (intro conjI)
qed

text \<open>
  Claim C10 (the read \<^verbatim>\<open>tab[fin_seq]\<close> of line 380 is within the \<open>taille + 1\<close> cells
  of \<^verbatim>\<open>tab\<close>): the code breaks it. For \<open>AC\<close>, \<open>AC\<close> and the threshold 1 the range
  \<open>[0, 2)\<close> is split at 1; the first half returns the boundary array \<open>[2, 0, 2]\<close>, and
  the second half, with \<open>debut_seq = 1\<close> and \<open>fin_seq = 2\<close>, reads \<^verbatim>\<open>tab[2]\<close> in an
  array of two cells.
\<close>

theorem C10_read_out_of_bounds:
  "cache_oblivious_helper std_classifier ''AC'' ''AC'' [0, 2, 4] 1 0 1 = Some (Inr [2, 0, 2]) \<and>
   cache_oblivious_helper std_classifier ''AC'' ''AC'' [2, 0, 2] 1 1 2 = Some (Inl Out_Of_Bounds) \<and>
   cache_oblivious_leaf std_classifier ''AC'' ''AC'' [2, 0, 2] 1 2 = Inl Out_Of_Bounds"
  by code_simp

end
